theory Spec2Isabelle
  imports Complex_Main "HOL-Library.Word"
begin

section \<open>The raytracer page driver (www/index.js)\<close>

text \<open>
  The repository's only source file is the page script \<^verbatim>\<open>www/index.js\<close>. It imports the
  rendering engine as the module \<^verbatim>\<open>wasm\<close>, builds a world and a camera, sizes a canvas and
  registers two click handlers: one bumps a counter, the other renders the canvas column
  by column, one \<^verbatim>\<open>setTimeout\<close> callback per column.

  The engine itself is not part of the source, so it is a parameter of the model: a record
  of the three functions the script imports. A call of \<^verbatim>\<open>color_at\<close> either returns a
  colour or throws. Colour components are JavaScript numbers, that is doubles, and the
  product \<^verbatim>\<open>255 * component\<close> is the double product, rounded as the language rounds
  it. Loop indices and the click counter are naturals (the counter with the precision
  limit of a double written out).
\<close>

subsection \<open>Data\<close>

type_synonym byte = "8 word"

datatype error = EngineError

text \<open>
  A JavaScript number: not-a-number, an infinity with its sign, or a finite value given by
  sign, significand and binary exponent, standing for \<open>\<plusminus> m * 2 ^ e\<close>. The doubles are
  the finite values with a significand below \<open>2^53\<close>, an exponent of at least \<open>-1074\<close>
  and a magnitude below \<open>2^1024\<close>, together with the three special values.
\<close>

datatype number = NaN | Infinity bool | Finite bool nat int

record color =
  red :: number
  green :: number
  blue :: number

record ('w, 'c) engine =
  create_world :: 'w
  create_camera :: "nat \<Rightarrow> nat \<Rightarrow> 'c"
  color_at :: "'w \<Rightarrow> 'c \<Rightarrow> nat \<Rightarrow> nat \<Rightarrow> error + color"

text \<open>
  One canvas pixel: the four channels that \<^verbatim>\<open>getImageData(x, y, 1, 1)\<close> returns as
  \<^verbatim>\<open>data[0]\<close> to \<^verbatim>\<open>data[3]\<close> (red, green, blue, alpha) and \<^verbatim>\<open>putImageData\<close> stores.
\<close>

record pixel =
  data0 :: byte
  data1 :: byte
  data2 :: byte
  data3 :: byte

text \<open>
  The trace is bookkeeping added to the model: it records every call into the engine with
  its arguments and every \<^verbatim>\<open>putImageData\<close> with its position and data. The events of
  a render are tagged with the number of the render pass (the click) they belong to.
\<close>

datatype ('w, 'c) event =
    CreateWorld
  | CreateCamera nat nat
  | ColorAt nat 'w 'c nat nat
  | PutImageData nat nat nat "byte list"

fun pass_of :: "('w, 'c) event \<Rightarrow> nat option" where
  "pass_of CreateWorld = None"
| "pass_of (CreateCamera w h) = None"
| "pass_of (ColorAt p w c i j) = Some p"
| "pass_of (PutImageData p x y d) = Some p"

text \<open>
  The page: the module's variables, the two DOM elements it writes, the console, and the
  host's queue of pending \<^verbatim>\<open>setTimeout\<close> callbacks. A pending callback is the closure
  of line 28; it is identified by the pass that created it and the column \<^verbatim>\<open>i\<close> it
  captured. \<^verbatim>\<open>passes\<close> counts the clicks on the render button so far.
\<close>

record ('w, 'c) page =
  count :: nat
  world :: 'w
  camera :: 'c
  canvas_width :: nat
  canvas_height :: nat
  raster :: "nat \<times> nat \<Rightarrow> pixel"
  freezedText :: string
  console :: "string list"
  timers :: "(nat \<times> nat) list"
  passes :: nat
  trace :: "('w, 'c) event list"

datatype action = ClickFreezed | ClickRender | Tick

subsection \<open>Host operations\<close>

definition CANVAS_WIDTH :: nat where
  "CANVAS_WIDTH = 600"

definition CANVAS_HEIGHT :: nat where
  "CANVAS_HEIGHT = 300"

definition transparent :: pixel where
  "transparent = \<lparr>data0 = 0, data1 = 0, data2 = 0, data3 = 0\<rparr>"

text \<open>
  The real a finite number stands for (the infinities and not-a-number stand for none and
  get 0; they are told apart by case wherever a number is used), the doubles among the
  numbers, and the number an integer literal below \<open>2^53\<close> denotes.
\<close>

fun val :: "number \<Rightarrow> real" where
  "val (Finite s m e) = (if s then - 1 else 1) * real m * 2 powi e"
| "val (Infinity s) = 0"
| "val NaN = 0"

definition is_double :: "number \<Rightarrow> bool" where
  "is_double x =
     (case x of
        Finite s m e \<Rightarrow> m < 2 ^ 53 \<and> - 1074 \<le> e \<and> real m * 2 powi e < 2 ^ 1024
      | _ \<Rightarrow> True)"

definition js_number :: "nat \<Rightarrow> number" where
  "js_number n = Finite False n 0"

text \<open>
  The language's \<^verbatim>\<open>*\<close> on numbers. The exact product of two finite values is rounded to
  the nearest double: to 53 significant bits, or to the multiple of \<open>2^-1074\<close> when the
  product is smaller than the normal range, a tie going to the even significand; a result
  of magnitude \<open>2^1024\<close> or more is an infinity.
\<close>

fun bits :: "nat \<Rightarrow> nat" where
  "bits n = (if n = 0 then 0 else Suc (bits (n div 2)))"

definition round_to :: "nat \<Rightarrow> nat \<Rightarrow> nat" where
  "round_to k n =
     (let q = n div 2 ^ k; r = n mod 2 ^ k; half = 2 ^ (k - 1)
      in if r < half then q
         else if half < r then q + 1
         else if even q then q else q + 1)"

definition shift :: "nat \<Rightarrow> int \<Rightarrow> int" where
  "shift n e = max (int (bits n) - 53) (- 1074 - e)"

definition round_sig :: "nat \<Rightarrow> int \<Rightarrow> nat" where
  "round_sig n e = (if shift n e \<le> 0 then n else round_to (nat (shift n e)) n)"

definition round_exp :: "nat \<Rightarrow> int \<Rightarrow> int" where
  "round_exp n e = (if shift n e \<le> 0 then e else e + shift n e)"

definition round_pack :: "bool \<Rightarrow> nat \<Rightarrow> int \<Rightarrow> number" where
  "round_pack s n e =
     (if 2 ^ 1024 \<le> real (round_sig n e) * 2 powi round_exp n e then Infinity s
      else Finite s (round_sig n e) (round_exp n e))"

fun js_mul :: "number \<Rightarrow> number \<Rightarrow> number" where
  "js_mul NaN y = NaN"
| "js_mul x NaN = NaN"
| "js_mul (Infinity s) (Infinity t) = Infinity (s \<noteq> t)"
| "js_mul (Infinity s) (Finite t m e) = (if m = 0 then NaN else Infinity (s \<noteq> t))"
| "js_mul (Finite s m e) (Infinity t) = (if m = 0 then NaN else Infinity (s \<noteq> t))"
| "js_mul (Finite s m1 e1) (Finite t m2 e2) = round_pack (s \<noteq> t) (m1 * m2) (e1 + e2)"

text \<open>
  Storing a number into a \<^verbatim>\<open>Uint8ClampedArray\<close> converts it with the language's
  \<^verbatim>\<open>ToUint8Clamp\<close>: not-a-number gives 0; any other number is clamped to the interval
  from 0 to 255 and rounded to the nearest integer, a tie going to the even one.
\<close>

definition clamp_round :: "real \<Rightarrow> int" where
  "clamp_round x =
     (let clamped = min (max x 0) 255; f = \<lfloor>clamped\<rfloor>
      in if clamped < of_int f + 1 / 2 then f
         else if clamped > of_int f + 1 / 2 then f + 1
         else if even f then f else f + 1)"

fun ToUint8Clamp :: "number \<Rightarrow> int" where
  "ToUint8Clamp NaN = 0"
| "ToUint8Clamp (Infinity s) = (if s then 0 else 255)"
| "ToUint8Clamp (Finite s m e) = clamp_round (val (Finite s m e))"

definition set_element :: "byte list \<Rightarrow> nat \<Rightarrow> number \<Rightarrow> byte list" where
  "set_element d k v = d[k := word_of_int (ToUint8Clamp v)]"

definition getImageData :: "('w, 'c) page \<Rightarrow> nat \<Rightarrow> nat \<Rightarrow> byte list" where
  "getImageData s x y =
     (let p = (if x < canvas_width s \<and> y < canvas_height s then raster s (x, y)
               else transparent)
      in [data0 p, data1 p, data2 p, data3 p])"

definition putImageData :: "nat \<Rightarrow> byte list \<Rightarrow> nat \<Rightarrow> nat \<Rightarrow> ('w, 'c) page \<Rightarrow> ('w, 'c) page" where
  "putImageData p d x y s =
     (let s' = s\<lparr>trace := trace s @ [PutImageData p x y d]\<rparr>
      in if x < canvas_width s \<and> y < canvas_height s
         then s'\<lparr>raster := (raster s)((x, y) := \<lparr>data0 = d ! 0, data1 = d ! 1, data2 = d ! 2, data3 = d ! 3\<rparr>)\<rparr>
         else s')"

text \<open>
  \<^verbatim>\<open>`${count}`\<close> for a non-negative integer below \<^verbatim>\<open>1e21\<close> is its decimal numeral.
\<close>

definition digit :: "nat \<Rightarrow> char" where
  "digit n = ''0123456789'' ! n"

function number_to_string :: "nat \<Rightarrow> string" where
  "number_to_string n =
     (if n < 10 then [digit n] else number_to_string (n div 10) @ [digit (n mod 10)])"
  by pat_completeness auto
termination
  by (relation "measure id") auto

text \<open>
  \<^verbatim>\<open>count += 1\<close> on a double: exact up to \<^verbatim>\<open>2^53\<close>, where adding one rounds back to
  \<^verbatim>\<open>2^53\<close>.
\<close>

definition js_add1 :: "nat \<Rightarrow> nat" where
  "js_add1 n = (if n < 2 ^ 53 then n + 1 else n)"

subsection \<open>The script\<close>

text \<open>Lines 3 to 11: the module's top level. The text of the probe element comes from the page.\<close>

definition init :: "('w, 'c) engine \<Rightarrow> string \<Rightarrow> ('w, 'c) page" where
  "init wasm html =
     \<lparr>count = 0,
      world = create_world wasm,
      camera = create_camera wasm CANVAS_WIDTH CANVAS_HEIGHT,
      canvas_width = CANVAS_WIDTH,
      canvas_height = CANVAS_HEIGHT,
      raster = (\<lambda>_. transparent),
      freezedText = html,
      console = [],
      timers = [],
      passes = 0,
      trace = [CreateWorld, CreateCamera CANVAS_WIDTH CANVAS_HEIGHT]\<rparr>"

text \<open>Lines 15 to 18: the probe button's handler.\<close>

definition click_freezed :: "('w, 'c) page \<Rightarrow> ('w, 'c) page" where
  "click_freezed s =
     (let s1 = s\<lparr>count := js_add1 (count s)\<rparr>
      in s1\<lparr>freezedText := ''No, you are not! ('' @ number_to_string (count s1) @ '')''\<rparr>)"

text \<open>
  Lines 30 to 36: the body of the inner loop for pixel \<^verbatim>\<open>(i, j)\<close>. When \<^verbatim>\<open>color_at\<close>
  throws, the exception leaves the body with the page as it is at that point.
\<close>

definition render_pixel ::
  "('w, 'c) engine \<Rightarrow> nat \<Rightarrow> nat \<Rightarrow> nat \<Rightarrow> ('w, 'c) page \<Rightarrow> (error \<times> ('w, 'c) page) + ('w, 'c) page" where
  "render_pixel wasm p i j s =
     (let s1 = s\<lparr>trace := trace s @ [ColorAt p (world s) (camera s) i j]\<rparr>
      in case color_at wasm (world s) (camera s) i j of
           Inl e \<Rightarrow> Inl (e, s1)
         | Inr color \<Rightarrow>
             (let imageData = getImageData s1 i j;
                  imageData = set_element imageData 0 (js_mul (js_number 255) (red color));
                  imageData = set_element imageData 1 (js_mul (js_number 255) (green color));
                  imageData = set_element imageData 2 (js_mul (js_number 255) (blue color));
                  imageData = set_element imageData 3 (js_number 255)
              in Inr (putImageData p imageData i j s1)))"

text \<open>Lines 29 to 37: the inner loop, from row \<^verbatim>\<open>j\<close> on.\<close>

function column ::
  "('w, 'c) engine \<Rightarrow> nat \<Rightarrow> nat \<Rightarrow> nat \<Rightarrow> ('w, 'c) page \<Rightarrow> (error \<times> ('w, 'c) page) + ('w, 'c) page" where
  "column wasm p i j s =
     (if j < canvas_height s
      then (case render_pixel wasm p i j s of
              Inl x \<Rightarrow> Inl x
            | Inr s' \<Rightarrow> column wasm p i (j + 1) s')
      else Inr s)"
  by pat_completeness auto
termination
  by (relation "measure (\<lambda>(wasm, p, i, j, s). canvas_height s - j)")
     (auto simp: render_pixel_def putImageData_def Let_def split: sum.splits if_splits)

text \<open>
  Lines 26 and 27: the head of the outer loop at column \<^verbatim>\<open>i\<close>. If the test passes, the
  promise's executor hands the column's callback to \<^verbatim>\<open>setTimeout\<close> and the handler
  waits; otherwise the handler returns. The loops read their bounds from \<^verbatim>\<open>canvas\<close>,
  the window's name for the element with that id, which is the element \<^verbatim>\<open>$canvas\<close>
  that line 9 looked up and lines 10 and 11 sized.
\<close>

definition render_loop :: "nat \<Rightarrow> nat \<Rightarrow> ('w, 'c) page \<Rightarrow> ('w, 'c) page" where
  "render_loop p i s =
     (if i < canvas_width s then s\<lparr>timers := timers s @ [(p, i)]\<rparr> else s)"

text \<open>Lines 21 to 26: a click on the render button, up to the first \<^verbatim>\<open>await\<close>.\<close>

definition click_render :: "('w, 'c) page \<Rightarrow> ('w, 'c) page" where
  "click_render s =
     render_loop (passes s) 0
       (s\<lparr>console := console s @ [''rendering!''], passes := passes s + 1\<rparr>)"

text \<open>
  The host runs the oldest pending callback (lines 28 to 39). If the column completes,
  \<^verbatim>\<open>resolve()\<close> lets the handler continue with \<^verbatim>\<open>i++\<close> and the loop head, before the
  host takes another task. If \<^verbatim>\<open>color_at\<close> throws, the callback ends there: the promise
  is never resolved and the handler never continues.
\<close>

definition timer_task :: "('w, 'c) engine \<Rightarrow> ('w, 'c) page \<Rightarrow> ('w, 'c) page" where
  "timer_task wasm s =
     (case timers s of
        [] \<Rightarrow> s
      | (p, i) # rest \<Rightarrow>
          (case column wasm p i 0 (s\<lparr>timers := rest\<rparr>) of
             Inl (e, s') \<Rightarrow> s'
           | Inr s' \<Rightarrow> render_loop p (i + 1) s'))"

fun exec :: "('w, 'c) engine \<Rightarrow> ('w, 'c) page \<Rightarrow> action \<Rightarrow> ('w, 'c) page" where
  "exec wasm s ClickFreezed = click_freezed s"
| "exec wasm s ClickRender = click_render s"
| "exec wasm s Tick = timer_task wasm s"

definition run :: "('w, 'c) engine \<Rightarrow> action list \<Rightarrow> ('w, 'c) page \<Rightarrow> ('w, 'c) page" where
  "run wasm as s = foldl (exec wasm) s as"

subsection \<open>Quantities used in the statements\<close>

text \<open>The page a call of the pixel body or of the column loop leaves, thrown or not.\<close>

definition page_of :: "(error \<times> ('w, 'c) page) + ('w, 'c) page \<Rightarrow> ('w, 'c) page" where
  "page_of x = (case x of Inl (e, s) \<Rightarrow> s | Inr s \<Rightarrow> s)"

text \<open>The image data that lines 31 to 35 build from a returned colour, as a list and as a pixel.\<close>

definition bytes_of :: "color \<Rightarrow> byte list" where
  "bytes_of col =
     [word_of_int (ToUint8Clamp (js_mul (js_number 255) (red col))),
      word_of_int (ToUint8Clamp (js_mul (js_number 255) (green col))),
      word_of_int (ToUint8Clamp (js_mul (js_number 255) (blue col))),
      word_of_int (ToUint8Clamp (js_number 255))]"

definition pixel_of :: "color \<Rightarrow> pixel" where
  "pixel_of col =
     \<lparr>data0 = word_of_int (ToUint8Clamp (js_mul (js_number 255) (red col))),
      data1 = word_of_int (ToUint8Clamp (js_mul (js_number 255) (green col))),
      data2 = word_of_int (ToUint8Clamp (js_mul (js_number 255) (blue col))),
      data3 = word_of_int (ToUint8Clamp (js_number 255))\<rparr>"

text \<open>
  The events of one pixel and of the rows \<open>j0\<close> up to \<open>j1\<close> of column \<open>i\<close>, and the raster
  after those rows are painted, when \<open>f i j\<close> is the colour the engine returns for
  \<open>(i, j)\<close>.
\<close>

definition pixel_events ::
  "(nat \<Rightarrow> nat \<Rightarrow> color) \<Rightarrow> 'w \<Rightarrow> 'c \<Rightarrow> nat \<Rightarrow> nat \<Rightarrow> nat \<Rightarrow> ('w, 'c) event list" where
  "pixel_events f w c p i j = [ColorAt p w c i j, PutImageData p i j (bytes_of (f i j))]"

definition col_events ::
  "(nat \<Rightarrow> nat \<Rightarrow> color) \<Rightarrow> 'w \<Rightarrow> 'c \<Rightarrow> nat \<Rightarrow> nat \<Rightarrow> nat \<Rightarrow> nat \<Rightarrow> ('w, 'c) event list" where
  "col_events f w c p i j0 j1 = concat (map (pixel_events f w c p i) [j0..<j1])"

definition paint_rows ::
  "(nat \<Rightarrow> nat \<Rightarrow> color) \<Rightarrow> nat \<Rightarrow> nat \<Rightarrow> nat \<Rightarrow> (nat \<times> nat \<Rightarrow> pixel) \<Rightarrow> nat \<times> nat \<Rightarrow> pixel" where
  "paint_rows f i j0 j1 ras =
     (\<lambda>(x, y). if x = i \<and> j0 \<le> y \<and> y < j1 then pixel_of (f x y) else ras (x, y))"

text \<open>
  The events of one pass in a trace, and the events of the first \<open>k\<close> columns of a pass
  on a raster of height \<open>h\<close>.
\<close>

definition of_pass :: "nat \<Rightarrow> ('w, 'c) event list \<Rightarrow> ('w, 'c) event list" where
  "of_pass p tr = filter (\<lambda>e. pass_of e = Some p) tr"

definition pass_events ::
  "(nat \<Rightarrow> nat \<Rightarrow> color) \<Rightarrow> 'w \<Rightarrow> 'c \<Rightarrow> nat \<Rightarrow> nat \<Rightarrow> nat \<Rightarrow> ('w, 'c) event list" where
  "pass_events f w c h p k = concat (map (\<lambda>i. col_events f w c p i 0 h) [0..<k])"

text \<open>
  A pending callback tells how far its pass has come: \<open>finished_cols s p\<close> is the column
  the callback of pass \<open>p\<close> waits to paint, and the raster's width once no callback of
  the pass is pending.
\<close>

definition finished_cols :: "('w, 'c) page \<Rightarrow> nat \<Rightarrow> nat" where
  "finished_cols s p = (case map_of (timers s) p of Some i \<Rightarrow> i | None \<Rightarrow> canvas_width s)"

text \<open>
  What holds of every page the script can reach: the canvas, world and camera are the ones
  of the start; each pass has at most one pending callback, for a column of the raster;
  every call and every write in the trace is for a pixel of the raster, with the world
  and camera of the start and the bytes of the colour the engine returns there; the
  raster holds those bytes at the pixels written and is transparent elsewhere.
\<close>

fun ev_ok :: "('w, 'c) engine \<Rightarrow> nat \<Rightarrow> (nat \<times> nat \<Rightarrow> pixel) \<Rightarrow> ('w, 'c) event \<Rightarrow> bool" where
  "ev_ok wasm n ras CreateWorld = True"
| "ev_ok wasm n ras (CreateCamera w h) = True"
| "ev_ok wasm n ras (ColorAt p w c i j) =
     (p < n \<and> w = create_world wasm \<and> c = create_camera wasm 600 300 \<and> i < 600 \<and> j < 300)"
| "ev_ok wasm n ras (PutImageData p x y d) =
     (p < n \<and> x < 600 \<and> y < 300 \<and>
      (\<exists>col. color_at wasm (create_world wasm) (create_camera wasm 600 300) x y = Inr col \<and>
             d = bytes_of col \<and> ras (x, y) = pixel_of col))"

definition trace_ok ::
  "('w, 'c) engine \<Rightarrow> nat \<Rightarrow> (nat \<times> nat \<Rightarrow> pixel) \<Rightarrow> ('w, 'c) event list \<Rightarrow> bool" where
  "trace_ok wasm n ras tr \<longleftrightarrow>
     (\<forall>e\<in>set tr. ev_ok wasm n ras e) \<and>
     (\<forall>x y. (\<forall>p d. PutImageData p x y d \<notin> set tr) \<longrightarrow> ras (x, y) = transparent)"

definition sound :: "('w, 'c) engine \<Rightarrow> ('w, 'c) page \<Rightarrow> bool" where
  "sound wasm s \<longleftrightarrow>
     canvas_width s = 600 \<and> canvas_height s = 300 \<and>
     world s = create_world wasm \<and> camera s = create_camera wasm 600 300 \<and>
     distinct (map fst (timers s)) \<and>
     (\<forall>(p, i)\<in>set (timers s). p < passes s \<and> i < 600) \<and>
     trace_ok wasm (passes s) (raster s) (trace s)"

text \<open>
  In an engine that returns \<open>f i j\<close> for every pixel, the events of each pass so far are
  those of its finished columns, in order.
\<close>

definition progress :: "(nat \<Rightarrow> nat \<Rightarrow> color) \<Rightarrow> ('w, 'c) engine \<Rightarrow> ('w, 'c) page \<Rightarrow> bool" where
  "progress f wasm s \<longleftrightarrow>
     (\<forall>p<passes s. of_pass p (trace s) =
        pass_events f (create_world wasm) (create_camera wasm 600 300) 300 p (finished_cols s p))"

text \<open>The raster after the first \<open>k\<close> columns are painted.\<close>

definition paint_cols ::
  "(nat \<Rightarrow> nat \<Rightarrow> color) \<Rightarrow> nat \<Rightarrow> nat \<Rightarrow> (nat \<times> nat \<Rightarrow> pixel) \<Rightarrow> nat \<times> nat \<Rightarrow> pixel" where
  "paint_cols f k h ras =
     (\<lambda>(x, y). if x < k \<and> y < h then pixel_of (f x y) else ras (x, y))"

text \<open>
  The number of callbacks still to run before the queue is empty, when every column
  completes, and the page after the host has run that many.
\<close>

definition remaining :: "('w, 'c) page \<Rightarrow> nat" where
  "remaining s = sum_list (map (\<lambda>(p, i). canvas_width s - i) (timers s))"

definition drain :: "('w, 'c) engine \<Rightarrow> ('w, 'c) page \<Rightarrow> ('w, 'c) page" where
  "drain wasm s = run wasm (replicate (remaining s) Tick) s"

text \<open>
  The queue after each pending callback has moved on by \<open>n\<close> columns, the events of one
  round in which every callback of the queue runs once, in queue order, and the events
  of \<open>n\<close> such rounds.
\<close>

definition advance :: "nat \<Rightarrow> (nat \<times> nat) list \<Rightarrow> (nat \<times> nat) list" where
  "advance n ts = map (\<lambda>(p, i). (p, i + n)) ts"

definition round_events ::
  "(nat \<Rightarrow> nat \<Rightarrow> color) \<Rightarrow> 'w \<Rightarrow> 'c \<Rightarrow> (nat \<times> nat) list \<Rightarrow> ('w, 'c) event list" where
  "round_events f w c ts = concat (map (\<lambda>(p, i). col_events f w c p i 0 300) ts)"

definition rounds ::
  "(nat \<Rightarrow> nat \<Rightarrow> color) \<Rightarrow> 'w \<Rightarrow> 'c \<Rightarrow> (nat \<times> nat) list \<Rightarrow> nat \<Rightarrow> ('w, 'c) event list" where
  "rounds f w c ts n = concat (map (\<lambda>m. round_events f w c (advance m ts)) [0..<n])"

text \<open>The value a decimal numeral denotes.\<close>

definition decimal_value :: "string \<Rightarrow> nat" where
  "decimal_value cs = foldl (\<lambda>acc ch. 10 * acc + (of_char ch - 48)) 0 cs"

text \<open>
  The byte the specification names, in its words: \<^verbatim>\<open>round(255 * clamp(component, 0, 1))\<close>,
  with \<open>round\<close> the usual rounding, a half going up, first in exact arithmetic on the
  value of the component.
\<close>

definition spec_clamp :: "real \<Rightarrow> real \<Rightarrow> real \<Rightarrow> real" where
  "spec_clamp x lo hi = min (max x lo) hi"

definition spec_byte :: "real \<Rightarrow> int" where
  "spec_byte component = round (255 * spec_clamp component 0 1)"

text \<open>
  The same formula with the language's own operations: the clamp of a number to the
  numbers 0 and 1, the double product with 255, and rounding to the nearest integer with a
  half going to the even neighbour. Not-a-number, for which the formula has no value,
  gets the byte 0.
\<close>

fun js_clamp01 :: "number \<Rightarrow> number" where
  "js_clamp01 NaN = NaN"
| "js_clamp01 (Infinity s) = (if s then js_number 0 else js_number 1)"
| "js_clamp01 (Finite s m e) =
     (if val (Finite s m e) \<le> 0 then js_number 0
      else if 1 \<le> val (Finite s m e) then js_number 1
      else Finite s m e)"

definition nearest_ties_even :: "real \<Rightarrow> int" where
  "nearest_ties_even x =
     (if x - of_int \<lfloor>x\<rfloor> = 1 / 2 \<and> even \<lfloor>x\<rfloor> then round x - 1 else round x)"

definition nearest_byte :: "number \<Rightarrow> int" where
  "nearest_byte component =
     (if component = NaN then 0
      else nearest_ties_even (val (js_mul (js_number 255) (js_clamp01 component))))"

text \<open>
  Engines to run the script on. \<open>test_engine bad\<close> returns a gradient for the pixels
  inside the camera's raster (red \<open>i / 1024\<close>, green \<open>j / 512\<close>, blue above 1) and
  throws outside it and at the pixels \<open>bad\<close> selects. \<open>tie_engine\<close> returns one colour,
  with the doubles \<open>0.43333333333333335\<close>, \<open>0.36666666666666664\<close> and
  \<open>0.8333333333333334\<close> as components: their double products with 255 are exactly
  110.5, 93.5 and 212.5, while the exact products lie just above, below and above.
\<close>

definition gradient :: "nat \<times> nat \<Rightarrow> nat \<Rightarrow> nat \<Rightarrow> color" where
  "gradient c i j =
     \<lparr>red = Finite False i (- 10), green = Finite False j (- 9),
      blue = Finite False (fst c + snd c) (- 9)\<rparr>"

definition test_engine :: "(nat \<Rightarrow> nat \<Rightarrow> bool) \<Rightarrow> (unit, nat \<times> nat) engine" where
  "test_engine bad =
     \<lparr>create_world = (),
      create_camera = (\<lambda>w h. (w, h)),
      color_at = (\<lambda>w c i j.
         if i < fst c \<and> j < snd c \<and> \<not> bad i j then Inr (gradient c i j) else Inl EngineError)\<rparr>"

definition never :: "nat \<Rightarrow> nat \<Rightarrow> bool" where
  "never i j = False"

definition only_at :: "nat \<Rightarrow> nat \<Rightarrow> nat \<Rightarrow> nat \<Rightarrow> bool" where
  "only_at x y i j = (i = x \<and> j = y)"

definition tie_color :: color where
  "tie_color =
     \<lparr>red = Finite False 1951559838527215 (- 52),
      green = Finite False 6605279453476727 (- 54),
      blue = Finite False 7505999378950827 (- 53)\<rparr>"

definition tie_engine :: "(unit, unit) engine" where
  "tie_engine =
     \<lparr>create_world = (), create_camera = (\<lambda>w h. ()), color_at = (\<lambda>w c i j. Inr tie_color)\<rparr>"

section \<open>Basic facts\<close>

declare column.simps [simp del]

declare exec.simps [simp del]

declare number_to_string.simps [simp del]

lemma page_of_simps [simp]: "page_of (Inl (e, s)) = s" "page_of (Inr s) = s"
  by (simp_all add: page_of_def)

lemma init_simps:
  "count (init wasm html) = 0"
  "world (init wasm html) = create_world wasm"
  "camera (init wasm html) = create_camera wasm 600 300"
  "canvas_width (init wasm html) = 600"
  "canvas_height (init wasm html) = 300"
  "raster (init wasm html) = (\<lambda>_. transparent)"
  "freezedText (init wasm html) = html"
  "console (init wasm html) = []"
  "timers (init wasm html) = []"
  "passes (init wasm html) = 0"
  "trace (init wasm html) = [CreateWorld, CreateCamera 600 300]"
  by (simp_all add: init_def CANVAS_WIDTH_def CANVAS_HEIGHT_def)

lemma test_engine_simps:
  "create_world (test_engine bad) = ()"
  "create_camera (test_engine bad) w h = (w, h)"
  "color_at (test_engine bad) u (w, h) i j =
     (if i < w \<and> j < h \<and> \<not> bad i j then Inr (gradient (w, h) i j) else Inl EngineError)"
  by (simp_all add: test_engine_def)

subsection \<open>Rounding a product to a double\<close>

declare bits.simps [simp del]

lemma bits_0 [simp]: "bits 0 = 0"
  by (simp add: bits.simps)

lemma bits_upper: "n < 2 ^ bits n"
proof (induction n rule: bits.induct)
  case (1 n)
  show ?case
  proof (cases "n = 0")
    case True
    then show ?thesis by simp
  next
    case False
    then have "n div 2 < 2 ^ bits (n div 2)" using 1 by simp
    then have "n < 2 * 2 ^ bits (n div 2)" by linarith
    then show ?thesis using False by (subst bits.simps) simp
  qed
qed

lemma bits_lower: "0 < n \<Longrightarrow> 2 ^ (bits n - 1) \<le> n"
proof (induction n rule: bits.induct)
  case (1 n)
  show ?case
  proof (cases "n div 2 = 0")
    case True
    then have "bits n = 1" using 1(2) by (subst bits.simps) simp
    then show ?thesis using 1(2) by simp
  next
    case False
    then have h: "2 ^ (bits (n div 2) - 1) \<le> n div 2" using 1 by simp
    have pos: "0 < bits (n div 2)" using False by (subst bits.simps) simp
    have b: "bits n = Suc (bits (n div 2))" using 1(2) by (subst bits.simps) simp
    have "2 ^ (bits n - 1) = 2 * 2 ^ (bits (n div 2) - 1)"
      using pos b by (cases "bits (n div 2)") simp_all
    also have "\<dots> \<le> 2 * (n div 2)" using h by simp
    also have "\<dots> \<le> n" by simp
    finally show ?thesis .
  qed
qed

lemma round_to_ge: "n div 2 ^ k \<le> round_to k n"
  by (simp add: round_to_def Let_def)

lemma round_to_le: "round_to k n \<le> n div 2 ^ k + 1"
  by (simp add: round_to_def Let_def)

lemma round_to_exact: "n mod 2 ^ k = 0 \<Longrightarrow> round_to k n = n div 2 ^ k"
  by (simp add: round_to_def Let_def)

lemma round_to_lower: "A * 2 ^ k \<le> n \<Longrightarrow> A \<le> round_to k n"
proof -
  assume "A * 2 ^ k \<le> n"
  then have "A \<le> n div 2 ^ k"
    by (simp add: less_eq_div_iff_mult_less_eq)
  then show ?thesis using round_to_ge[of n k] by linarith
qed

lemma round_to_upper: "n \<le> B * 2 ^ k \<Longrightarrow> round_to k n \<le> B"
proof (cases "n = B * 2 ^ k")
  case True
  then show ?thesis by (simp add: round_to_exact)
next
  case False
  assume "n \<le> B * 2 ^ k"
  then have "n < B * 2 ^ k" using False by simp
  then have "n div 2 ^ k < B"
    by (simp add: div_less_iff_less_mult)
  then show ?thesis using round_to_le[of k n] by linarith
qed

lemma powi_neg: "(2::real) powi (- int j) = 1 / 2 ^ j"
  by (simp add: power_int_minus field_simps)

lemma powi_nonneg: "0 \<le> e \<Longrightarrow> (2::real) powi e = 2 ^ nat e"
  by (simp add: power_int_def)

lemma shift_pos:
  assumes "- 1074 \<le> e" and "0 < shift n e"
  obtains k where "0 < k" "shift n e = int k" "bits n = 53 + k"
proof -
  have "shift n e = int (bits n) - 53" using assms by (simp add: shift_def max_def split: if_splits)
  then have "0 < nat (shift n e)" "shift n e = int (nat (shift n e))" "bits n = 53 + nat (shift n e)"
    using assms(2) by simp_all
  then show thesis using that by blast
qed

lemma rounded_ge_255:
  assumes e: "- 1074 \<le> e" and x: "255 \<le> real n * 2 powi e"
  shows "255 \<le> real (round_sig n e) * 2 powi round_exp n e"
proof (cases "shift n e \<le> 0")
  case True
  then show ?thesis using x by (simp add: round_sig_def round_exp_def)
next
  case False
  then have pos: "0 < shift n e" by simp
  obtain k where k: "0 < k" "shift n e = int k" "bits n = 53 + k"
    by (rule shift_pos[OF e pos])
  let ?q = "round_to k n"
  have eq: "round_sig n e = ?q" "round_exp n e = e + int k"
    using False k(2) by (simp_all add: round_sig_def round_exp_def)
  have npos: "0 < n" using k(3) by (cases "n = 0") simp_all
  have "2 ^ (52 + k) \<le> n" using bits_lower[OF npos] k(3) by simp
  then have "2 ^ 52 * 2 ^ k \<le> n" by (simp add: power_add)
  then have q52: "2 ^ 52 \<le> ?q" by (rule round_to_lower)
  show ?thesis
  proof (cases "0 \<le> e + int k")
    case True
    have "(1::real) \<le> 2 ^ nat (e + int k)" by simp
    then have "real ?q * 1 \<le> real ?q * 2 powi (e + int k)"
      unfolding powi_nonneg[OF True] by (intro mult_left_mono) simp_all
    moreover have "(255::real) \<le> real ?q"
    proof -
      have "(255::nat) \<le> 2 ^ 52" by simp
      then have "255 \<le> ?q" using q52 by linarith
      then show ?thesis by (metis of_nat_le_iff of_nat_numeral)
    qed
    ultimately show ?thesis unfolding eq by linarith
  next
    case False
    define d where "d = nat (- (e + int k))"
    have d: "e + int k = - int d" "e = - int (k + d)" using False by (simp_all add: d_def)
    have "255 \<le> real n * (1 / 2 ^ (k + d))"
      using x unfolding d(2) powi_neg .
    then have "255 * 2 ^ (k + d) \<le> real n" by (simp add: field_simps)
    then have "real (255 * 2 ^ d * 2 ^ k) \<le> real n" by (simp add: power_add mult_ac)
    then have "255 * 2 ^ d * 2 ^ k \<le> n" by (simp only: of_nat_le_iff)
    then have "255 * 2 ^ d \<le> ?q" by (rule round_to_lower)
    then have "real (255 * 2 ^ d) \<le> real ?q" by (simp only: of_nat_le_iff)
    then have "255 \<le> real ?q * (1 / 2 ^ d)" by (simp add: field_simps)
    then show ?thesis unfolding eq d(1) powi_neg .
  qed
qed

lemma rounded_le_255:
  assumes e: "- 1074 \<le> e" and x: "real n * 2 powi e \<le> 255"
  shows "real (round_sig n e) * 2 powi round_exp n e \<le> 255"
proof (cases "shift n e \<le> 0")
  case True
  then show ?thesis using x by (simp add: round_sig_def round_exp_def)
next
  case False
  then have pos: "0 < shift n e" by simp
  obtain k where k: "0 < k" "shift n e = int k" "bits n = 53 + k"
    by (rule shift_pos[OF e pos])
  let ?q = "round_to k n"
  have eq: "round_sig n e = ?q" "round_exp n e = e + int k"
    using False k(2) by (simp_all add: round_sig_def round_exp_def)
  have npos: "0 < n" using k(3) by (cases "n = 0") simp_all
  have big: "2 ^ (52 + k) \<le> n" using bits_lower[OF npos] k(3) by simp
  have neg: "e + int k < 0"
  proof (rule ccontr)
    assume "\<not> e + int k < 0"
    then have "- int k \<le> e" by simp
    then have "(2::real) powi (- int k) \<le> 2 powi e"
      by (intro power_int_increasing) simp_all
    then have "1 / 2 ^ k \<le> (2::real) powi e" unfolding powi_neg .
    moreover have "real (2 ^ (52 + k)) \<le> real n" using big by (simp only: of_nat_le_iff)
    ultimately have "real (2 ^ (52 + k)) * (1 / 2 ^ k) \<le> real n * 2 powi e"
      by (intro mult_mono) simp_all
    then have "(2::real) ^ 52 \<le> real n * 2 powi e" by (simp add: power_add)
    
    moreover have "(255::real) < 2 ^ 52" by simp
    ultimately show False using x by linarith
  qed
  define d where "d = nat (- (e + int k))"
  have d: "e + int k = - int d" "e = - int (k + d)" using neg by (simp_all add: d_def)
  have "real n * (1 / 2 ^ (k + d)) \<le> 255"
    using x unfolding d(2) powi_neg .
  then have "real n \<le> 255 * 2 ^ (k + d)" by (simp add: field_simps)
  then have "real n \<le> real (255 * 2 ^ d * 2 ^ k)" by (simp add: power_add mult_ac)
  then have "n \<le> 255 * 2 ^ d * 2 ^ k" by (simp only: of_nat_le_iff)
  then have "?q \<le> 255 * 2 ^ d" by (rule round_to_upper)
  then have "real ?q \<le> real (255 * 2 ^ d)" by (simp only: of_nat_le_iff)
  then have "real ?q * (1 / 2 ^ d) \<le> 255" by (simp add: field_simps)
  then show ?thesis unfolding eq d(1) powi_neg .
qed

subsection \<open>The typed array's conversion\<close>

lemma clamp_round_range: "0 \<le> clamp_round x \<and> clamp_round x \<le> 255"
proof -
  define c where "c = min (max x 0) (255::real)"
  have c: "0 \<le> c" "c \<le> 255" by (auto simp: c_def)
  have f0: "0 \<le> \<lfloor>c\<rfloor>" using c by simp
  have f1: "\<lfloor>c\<rfloor> \<le> 255" using c by (simp add: floor_le_iff)
  have f2: "c < of_int \<lfloor>c\<rfloor> + 1 / 2 \<or> \<lfloor>c\<rfloor> + 1 \<le> 255"
  proof (cases "\<lfloor>c\<rfloor> = 255")
    case True
    then have "c = 255" using c by linarith
    then show ?thesis by simp
  next
    case False
    then show ?thesis using f1 by linarith
  qed
  show ?thesis
    unfolding clamp_round_def Let_def c_def[symmetric]
    using f0 f1 f2 by auto
qed

lemma clamp_round_nearest: "clamp_round x = nearest_ties_even (min (max x 0) 255)"
proof -
  define y where "y = min (max x 0) (255::real)"
  have rd: "round y = \<lfloor>y + 1 / 2\<rfloor>" by (simp add: round_def)
  have lo: "of_int \<lfloor>y\<rfloor> \<le> y" and hi: "y < of_int \<lfloor>y\<rfloor> + 1" by linarith+
  consider "y < of_int \<lfloor>y\<rfloor> + 1 / 2" | "y > of_int \<lfloor>y\<rfloor> + 1 / 2" | "y = of_int \<lfloor>y\<rfloor> + 1 / 2"
    by linarith
  then have "(if y < of_int \<lfloor>y\<rfloor> + 1 / 2 then \<lfloor>y\<rfloor>
         else if y > of_int \<lfloor>y\<rfloor> + 1 / 2 then \<lfloor>y\<rfloor> + 1
         else if even \<lfloor>y\<rfloor> then \<lfloor>y\<rfloor> else \<lfloor>y\<rfloor> + 1) = nearest_ties_even y"
  proof cases
    case 1
    then have "\<lfloor>y + 1 / 2\<rfloor> = \<lfloor>y\<rfloor>" using lo hi by linarith
    with 1 show ?thesis by (simp add: nearest_ties_even_def rd)
  next
    case 2
    then have "\<lfloor>y + 1 / 2\<rfloor> = \<lfloor>y\<rfloor> + 1" using lo hi by linarith
    with 2 show ?thesis by (simp add: nearest_ties_even_def rd)
  next
    case 3
    then have "\<lfloor>y + 1 / 2\<rfloor> = \<lfloor>y\<rfloor> + 1" using lo hi by linarith
    with 3 show ?thesis by (simp add: nearest_ties_even_def rd)
  qed
  then show ?thesis
    unfolding clamp_round_def Let_def y_def .
qed

lemma clamp_round_low: "x \<le> 0 \<Longrightarrow> clamp_round x = 0"
  by (simp add: clamp_round_def Let_def max_def)

lemma clamp_round_high: "255 \<le> x \<Longrightarrow> clamp_round x = 255"
  by (simp add: clamp_round_def Let_def min_def max_def)

lemma nearest_ties_even_consts: "nearest_ties_even 0 = 0" "nearest_ties_even 255 = 255"
  by (simp_all add: nearest_ties_even_def)

lemma bits_255: "bits 255 = 8"
  by (simp add: bits.simps)

lemma mul255_Finite: "js_mul (js_number 255) (Finite s m e) = round_pack s (255 * m) e"
  by (simp add: js_number_def)

lemma mul255_one: "js_mul (js_number 255) (js_number 1) = Finite False 255 0"
  by (simp add: js_number_def round_pack_def round_sig_def round_exp_def shift_def bits_255)

lemma mul255_zero: "js_mul (js_number 255) (js_number 0) = Finite False 0 0"
  by (simp add: js_number_def round_pack_def round_sig_def round_exp_def shift_def)

lemma powi_pos: "0 < (2::real) powi e"
  by (simp add: power_int_def)

lemma stored_byte_number:
  assumes dbl: "is_double c" and num: "c \<noteq> NaN"
  shows "ToUint8Clamp (js_mul (js_number 255) c) =
         nearest_ties_even (val (js_mul (js_number 255) (js_clamp01 c)))"
proof (cases c)
  case NaN
  then show ?thesis using num by simp
next
  case (Infinity s)
  have lhs: "ToUint8Clamp (js_mul (js_number 255) c) = (if s then 0 else 255)"
    by (simp add: Infinity js_number_def)
  have rhs: "js_mul (js_number 255) (js_clamp01 c) = (if s then Finite False 0 0 else Finite False 255 0)"
    using mul255_one mul255_zero by (simp add: Infinity)
  show ?thesis
    unfolding lhs rhs by (simp add: nearest_ties_even_consts)
next
  case (Finite s m e)
  have e: "- 1074 \<le> e" using dbl Finite by (simp add: is_double_def)
  let ?q = "round_sig (255 * m) e" and ?e = "round_exp (255 * m) e"
  let ?rv = "real ?q * 2 powi ?e"
  let ?R = "js_mul (js_number 255) c"
  have R: "?R = (if 2 ^ 1024 \<le> ?rv then Infinity s else Finite s ?q ?e)"
    by (simp add: Finite mul255_Finite round_pack_def)
  have rv0: "0 \<le> ?rv" using powi_pos[of ?e] by simp
  have x: "real (255 * m) * 2 powi e = 255 * (real m * 2 powi e)" by simp
  consider (low) "val c \<le> 0" | (high) "1 \<le> val c" | (mid) "0 < val c" "val c < 1"
    by linarith
  then show ?thesis
  proof cases
    case low
    have rhs: "js_clamp01 c = js_number 0" using low by (simp add: Finite)
    have "ToUint8Clamp ?R = 0"
    proof (cases s)
      case True
      then show ?thesis using rv0 by (simp add: R clamp_round_low)
    next
      case False
      then have "real m * 2 powi e \<le> 0" using low by (simp add: Finite)
      then have "m = 0" using powi_pos[of e]
        by (metis mult_le_0_iff not_less of_nat_0_le_iff of_nat_eq_0_iff order_antisym)
      then have "?q = 0" using e by (simp add: round_sig_def shift_def)
      then show ?thesis by (simp add: R clamp_round_low)
    qed
    then show ?thesis unfolding rhs mul255_zero by (simp add: nearest_ties_even_consts)
  next
    case high
    have s: "\<not> s"
    proof
      assume s
      then have "val c \<le> 0" using powi_pos[of e] by (simp add: Finite mult_nonneg_nonneg)
      then show False using high by simp
    qed
    have rhs: "js_clamp01 c = js_number 1" using high by (simp add: Finite)
    have "255 \<le> real (255 * m) * 2 powi e" unfolding x using high s by (simp add: Finite)
    then have "255 \<le> ?rv" by (rule rounded_ge_255[OF e])
    then have "ToUint8Clamp ?R = 255" using s by (simp add: R clamp_round_high)
    then show ?thesis unfolding rhs mul255_one by (simp add: nearest_ties_even_consts)
  next
    case mid
    have s: "\<not> s"
    proof
      assume s
      then have "val c \<le> 0" using powi_pos[of e] by (simp add: Finite mult_nonneg_nonneg)
      then show False using mid by simp
    qed
    have rhs: "js_clamp01 c = c" using mid by (simp add: Finite)
    have "real (255 * m) * 2 powi e \<le> 255" unfolding x using mid s by (simp add: Finite)
    then have le: "?rv \<le> 255" by (rule rounded_le_255[OF e])
    have "(255::real) < 2 ^ 1024" by simp
    then have fin: "?R = Finite False ?q ?e" using le s by (simp add: R)
    have "ToUint8Clamp ?R = clamp_round ?rv" by (simp add: fin)
    also have "\<dots> = nearest_ties_even ?rv"
    proof -
      have "min (max ?rv 0) 255 = ?rv" using rv0 le by linarith
      then show ?thesis by (simp only: clamp_round_nearest)
    qed
    finally show ?thesis by (simp add: rhs fin)
  qed
qed

lemma stored_byte_NaN: "ToUint8Clamp (js_mul (js_number 255) NaN) = 0"
  by (simp add: js_number_def)

lemma ToUint8Clamp_range: "0 \<le> ToUint8Clamp x \<and> ToUint8Clamp x \<le> 255"
  using clamp_round_range by (cases x) simp_all

lemma uint_ToUint8Clamp: "uint (word_of_int (ToUint8Clamp x) :: byte) = ToUint8Clamp x"
proof -
  have "0 \<le> ToUint8Clamp x" "ToUint8Clamp x < 2 ^ 8"
    using ToUint8Clamp_range[of x] by auto
  then show ?thesis
    by (simp add: uint_word_of_int take_bit_int_eq_self)
qed

lemma ToUint8Clamp_255: "ToUint8Clamp (js_number 255) = 255"
  by (simp add: js_number_def clamp_round_high)

lemma stored_component:
  assumes "is_double c"
  shows "uint (word_of_int (ToUint8Clamp (js_mul (js_number 255) c)) :: byte) = nearest_byte c"
proof -
  have "ToUint8Clamp (js_mul (js_number 255) c) = nearest_byte c"
  proof (cases "c = NaN")
    case True
    then show ?thesis by (simp add: nearest_byte_def stored_byte_NaN)
  next
    case False
    then show ?thesis
      using stored_byte_number[OF assms False] by (simp add: nearest_byte_def)
  qed
  then show ?thesis
    using uint_ToUint8Clamp[of "js_mul (js_number 255) c"] by simp
qed

subsection \<open>One pixel\<close>

lemma render_pixel_Inl:
  "color_at wasm (world s) (camera s) i j = Inl e \<Longrightarrow>
   render_pixel wasm p i j s = Inl (e, s\<lparr>trace := trace s @ [ColorAt p (world s) (camera s) i j]\<rparr>)"
  by (simp add: render_pixel_def)

lemma render_pixel_Inr:
  "color_at wasm (world s) (camera s) i j = Inr col \<Longrightarrow>
   render_pixel wasm p i j s =
     Inr (putImageData p (bytes_of col) i j
            (s\<lparr>trace := trace s @ [ColorAt p (world s) (camera s) i j]\<rparr>))"
  by (simp add: render_pixel_def getImageData_def set_element_def bytes_of_def Let_def)

lemma render_pixel_Inr_in:
  "color_at wasm (world s) (camera s) i j = Inr col \<Longrightarrow> i < canvas_width s \<Longrightarrow> j < canvas_height s \<Longrightarrow>
   render_pixel wasm p i j s =
     Inr (s\<lparr>trace := trace s @ [ColorAt p (world s) (camera s) i j, PutImageData p i j (bytes_of col)],
            raster := (raster s)((i, j) := pixel_of col)\<rparr>)"
  by (simp add: render_pixel_Inr putImageData_def Let_def bytes_of_def pixel_of_def)

subsection \<open>One column\<close>

lemma col_events_empty [simp]: "col_events f w c p i j j = []"
  by (simp add: col_events_def)

lemma col_events_snoc:
  "j0 \<le> j1 \<Longrightarrow> col_events f w c p i j0 (Suc j1) = col_events f w c p i j0 j1 @ pixel_events f w c p i j1"
  by (simp add: col_events_def)

lemma paint_rows_empty [simp]: "paint_rows f i j j ras = ras"
  by (auto simp: paint_rows_def fun_eq_iff)

lemma paint_rows_snoc:
  "j0 \<le> j1 \<Longrightarrow> (paint_rows f i j0 j1 ras)((i, j1) := pixel_of (f i j1)) = paint_rows f i j0 (Suc j1) ras"
  by (auto simp: paint_rows_def fun_eq_iff)

text \<open>While the engine returns, the loop moves from row \<open>j0\<close> to row \<open>j1\<close>.\<close>

lemma column_advance:
  assumes ret: "\<forall>k. j0 \<le> k \<and> k < j1 \<longrightarrow> color_at wasm (world s) (camera s) i k = Inr (f i k)"
    and le: "j0 \<le> j1" and h: "j1 \<le> canvas_height s" and w: "i < canvas_width s"
  shows "column wasm p i j0 s =
         column wasm p i j1
           (s\<lparr>trace := trace s @ col_events f (world s) (camera s) p i j0 j1,
              raster := paint_rows f i j0 j1 (raster s)\<rparr>)"
  using le ret h
proof (induction j1 rule: dec_induct)
  case base
  show ?case by simp
next
  case (step n)
  let ?t = "s\<lparr>trace := trace s @ col_events f (world s) (camera s) p i j0 n,
              raster := paint_rows f i j0 n (raster s)\<rparr>"
  have IH: "column wasm p i j0 s = column wasm p i n ?t"
    using step by simp
  have c: "color_at wasm (world ?t) (camera ?t) i n = Inr (f i n)"
    using step by simp
  have "column wasm p i n ?t = column wasm p i (Suc n)
          (?t\<lparr>trace := trace ?t @ [ColorAt p (world ?t) (camera ?t) i n, PutImageData p i n (bytes_of (f i n))],
              raster := (raster ?t)((i, n) := pixel_of (f i n))\<rparr>)"
    using step.prems w
    by (subst column.simps) (simp add: render_pixel_Inr_in[OF c])
  also have "\<dots> = column wasm p i (Suc n)
           (s\<lparr>trace := trace s @ col_events f (world s) (camera s) p i j0 (Suc n),
              raster := paint_rows f i j0 (Suc n) (raster s)\<rparr>)"
    using step.hyps by (simp add: col_events_snoc paint_rows_snoc pixel_events_def)
  finally show ?case using IH by simp
qed

lemma column_returns:
  assumes "\<forall>k<canvas_height s. color_at wasm (world s) (camera s) i k = Inr (f i k)"
    and "i < canvas_width s"
  shows "column wasm p i 0 s =
         Inr (s\<lparr>trace := trace s @ col_events f (world s) (camera s) p i 0 (canvas_height s),
               raster := paint_rows f i 0 (canvas_height s) (raster s)\<rparr>)"
proof -
  have "column wasm p i 0 s = column wasm p i (canvas_height s)
           (s\<lparr>trace := trace s @ col_events f (world s) (camera s) p i 0 (canvas_height s),
              raster := paint_rows f i 0 (canvas_height s) (raster s)\<rparr>)"
    using assms by (intro column_advance) auto
  then show ?thesis by (simp add: column.simps)
qed

lemma column_throws:
  assumes "\<forall>k<j. color_at wasm (world s) (camera s) i k = Inr (f i k)"
    and "color_at wasm (world s) (camera s) i j = Inl e"
    and "j < canvas_height s" and "i < canvas_width s"
  shows "column wasm p i 0 s =
         Inl (e, s\<lparr>trace := trace s @ col_events f (world s) (camera s) p i 0 j @ [ColorAt p (world s) (camera s) i j],
               raster := paint_rows f i 0 j (raster s)\<rparr>)"
proof -
  let ?t = "s\<lparr>trace := trace s @ col_events f (world s) (camera s) p i 0 j,
              raster := paint_rows f i 0 j (raster s)\<rparr>"
  have "column wasm p i 0 s = column wasm p i j ?t"
    using assms by (intro column_advance) auto
  moreover have "color_at wasm (world ?t) (camera ?t) i j = Inl e"
    using assms by simp
  ultimately show ?thesis
    using assms(3) by (simp add: column.simps[of _ _ _ j] render_pixel_Inl)
qed

subsection \<open>One callback\<close>

lemma set_col_events:
  "set (col_events f w c p i j0 j1) =
     (\<Union>k\<in>{j0..<j1}. {ColorAt p w c i k, PutImageData p i k (bytes_of (f i k))})"
  by (auto simp: col_events_def pixel_events_def)

lemma tick_idle: "timers s = [] \<Longrightarrow> exec wasm s Tick = s"
  by (simp add: exec.simps timer_task_def)

lemma tick_returns:
  assumes "timers s = (p, i) # rest" and "i < canvas_width s"
    and "\<forall>k<canvas_height s. color_at wasm (world s) (camera s) i k = Inr (f i k)"
  shows "exec wasm s Tick =
           s\<lparr>timers := rest @ (if i + 1 < canvas_width s then [(p, i + 1)] else []),
             trace := trace s @ col_events f (world s) (camera s) p i 0 (canvas_height s),
             raster := paint_rows f i 0 (canvas_height s) (raster s)\<rparr>"
proof -
  let ?t = "s\<lparr>timers := rest\<rparr>"
  have "column wasm p i 0 ?t =
         Inr (?t\<lparr>trace := trace ?t @ col_events f (world ?t) (camera ?t) p i 0 (canvas_height ?t),
               raster := paint_rows f i 0 (canvas_height ?t) (raster ?t)\<rparr>)"
    using assms by (intro column_returns) auto
  then show ?thesis
    using assms(1) by (simp add: exec.simps timer_task_def render_loop_def)
qed

lemma tick_throws:
  assumes "timers s = (p, i) # rest" and "i < canvas_width s" and "j < canvas_height s"
    and "\<forall>k<j. color_at wasm (world s) (camera s) i k = Inr (f i k)"
    and "color_at wasm (world s) (camera s) i j = Inl e"
  shows "exec wasm s Tick =
           s\<lparr>timers := rest,
             trace := trace s @ col_events f (world s) (camera s) p i 0 j @ [ColorAt p (world s) (camera s) i j],
             raster := paint_rows f i 0 j (raster s)\<rparr>"
proof -
  let ?t = "s\<lparr>timers := rest\<rparr>"
  have "column wasm p i 0 ?t =
         Inl (e, ?t\<lparr>trace := trace ?t @ col_events f (world ?t) (camera ?t) p i 0 j @ [ColorAt p (world ?t) (camera ?t) i j],
               raster := paint_rows f i 0 j (raster ?t)\<rparr>)"
    using assms by (intro column_throws) auto
  then show ?thesis
    using assms(1) by (simp add: exec.simps timer_task_def)
qed

lemma tick_cases [consumes 2, case_names returns throws]:
  assumes "timers s = (p, i) # rest" and "i < canvas_width s"
  obtains (returns) f where
      "\<forall>k<canvas_height s. color_at wasm (world s) (camera s) i k = Inr (f i k)"
      "exec wasm s Tick =
           s\<lparr>timers := rest @ (if i + 1 < canvas_width s then [(p, i + 1)] else []),
             trace := trace s @ col_events f (world s) (camera s) p i 0 (canvas_height s),
             raster := paint_rows f i 0 (canvas_height s) (raster s)\<rparr>"
  | (throws) f j e where
      "j < canvas_height s"
      "\<forall>k<j. color_at wasm (world s) (camera s) i k = Inr (f i k)"
      "color_at wasm (world s) (camera s) i j = Inl e"
      "exec wasm s Tick =
           s\<lparr>timers := rest,
             trace := trace s @ col_events f (world s) (camera s) p i 0 j @ [ColorAt p (world s) (camera s) i j],
             raster := paint_rows f i 0 j (raster s)\<rparr>"
proof -
  define f where "f = (\<lambda>i k. projr (color_at wasm (world s) (camera s) i k))"
  have fr: "color_at wasm (world s) (camera s) i k = Inr (f i k)"
    if "\<not> isl (color_at wasm (world s) (camera s) i k)" for k
    using that by (simp add: f_def)
  show thesis
  proof (cases "\<exists>k<canvas_height s. isl (color_at wasm (world s) (camera s) i k)")
    case False
    then have all: "\<forall>k<canvas_height s. color_at wasm (world s) (camera s) i k = Inr (f i k)"
      using fr by blast
    show thesis
      by (rule returns[where f=f, OF all tick_returns[where f=f, OF assms all]])
  next
    case True
    define j where "j = (LEAST k. k < canvas_height s \<and> isl (color_at wasm (world s) (camera s) i k))"
    have j: "j < canvas_height s \<and> isl (color_at wasm (world s) (camera s) i j)"
      unfolding j_def using LeastI_ex[OF True] .
    have before: "\<forall>k<j. color_at wasm (world s) (camera s) i k = Inr (f i k)"
    proof (intro allI impI)
      fix k assume "k < j"
      then have "\<not> (k < canvas_height s \<and> isl (color_at wasm (world s) (camera s) i k))"
        unfolding j_def by (rule not_less_Least)
      moreover have "k < canvas_height s" using \<open>k < j\<close> j by simp
      ultimately show "color_at wasm (world s) (camera s) i k = Inr (f i k)"
        using fr by blast
    qed
    obtain e where e: "color_at wasm (world s) (camera s) i j = Inl e"
      using j by (cases "color_at wasm (world s) (camera s) i j") auto
    have jl: "j < canvas_height s" using j by simp
    show thesis
      by (rule throws[where f=f, OF jl before e tick_throws[where f=f, OF assms(1,2) jl before e]])
  qed
qed

subsection \<open>Every reachable page is sound\<close>

lemma ev_ok_mono: "ev_ok wasm n ras e \<Longrightarrow> n \<le> m \<Longrightarrow> ev_ok wasm m ras e"
  by (cases e) auto

lemma trace_ok_mono: "trace_ok wasm n ras tr \<Longrightarrow> n \<le> m \<Longrightarrow> trace_ok wasm m ras tr"
  unfolding trace_ok_def using ev_ok_mono by blast

lemma ev_ok_paint:
  assumes "ev_ok wasm n ras e"
    and "\<forall>k<j. color_at wasm (create_world wasm) (create_camera wasm 600 300) i k = Inr (f i k)"
  shows "ev_ok wasm n (paint_rows f i 0 j ras) e"
  using assms by (cases e) (auto simp: paint_rows_def)

lemma trace_ok_paint:
  assumes ok: "trace_ok wasm n ras tr" and p: "p < n" and i: "i < 600" and j: "j \<le> 300"
    and ret: "\<forall>k<j. color_at wasm (create_world wasm) (create_camera wasm 600 300) i k = Inr (f i k)"
  shows "trace_ok wasm n (paint_rows f i 0 j ras)
           (tr @ col_events f (create_world wasm) (create_camera wasm 600 300) p i 0 j)"
  unfolding trace_ok_def
proof (intro conjI ballI allI impI)
  fix e
  assume "e \<in> set (tr @ col_events f (create_world wasm) (create_camera wasm 600 300) p i 0 j)"
  then consider "e \<in> set tr"
    | k where "k < j" "e = ColorAt p (create_world wasm) (create_camera wasm 600 300) i k"
    | k where "k < j" "e = PutImageData p i k (bytes_of (f i k))"
    by (auto simp: set_col_events)
  then show "ev_ok wasm n (paint_rows f i 0 j ras) e"
  proof cases
    case 1
    then show ?thesis using ok ev_ok_paint[where f=f and i=i, OF _ ret] by (simp add: trace_ok_def)
  next
    case 2
    then show ?thesis using p i j by simp
  next
    case 3
    then show ?thesis using p i j ret by (simp add: paint_rows_def)
  qed
next
  fix x y
  assume none: "\<forall>q d. PutImageData q x y d
           \<notin> set (tr @ col_events f (create_world wasm) (create_camera wasm 600 300) p i 0 j)"
  then have "ras (x, y) = transparent"
    using ok by (simp add: trace_ok_def)
  moreover have "\<not> (x = i \<and> y < j)"
    using none by (auto simp: set_col_events)
  ultimately show "paint_rows f i 0 j ras (x, y) = transparent"
    by (auto simp: paint_rows_def)
qed

lemma trace_ok_call:
  assumes "trace_ok wasm n ras tr" and "p < n" and "i < 600" and "j < 300"
  shows "trace_ok wasm n ras (tr @ [ColorAt p (create_world wasm) (create_camera wasm 600 300) i j])"
  using assms by (auto simp: trace_ok_def)

lemma sound_init: "sound wasm (init wasm html)"
  by (auto simp: sound_def init_simps trace_ok_def)

lemma sound_click_freezed: "sound wasm s \<Longrightarrow> sound wasm (click_freezed s)"
  by (simp add: sound_def click_freezed_def Let_def)

lemma sound_click_render:
  assumes "sound wasm s"
  shows "sound wasm (click_render s)"
proof -
  have "trace_ok wasm (Suc (passes s)) (raster s) (trace s)"
    using assms trace_ok_mono[of wasm "passes s" "raster s" "trace s" "Suc (passes s)"]
    by (simp add: sound_def)
  moreover have "passes s \<notin> fst ` set (timers s)"
    using assms by (auto simp: sound_def)
  ultimately show ?thesis
    using assms by (auto simp: sound_def click_render_def render_loop_def)
qed

lemma sound_tick:
  assumes s: "sound wasm s"
  shows "sound wasm (exec wasm s Tick)"
proof (cases "timers s")
  case Nil
  then show ?thesis using s by (simp add: tick_idle)
next
  case (Cons pi rest)
  obtain p i where pi: "pi = (p, i)" by (cases pi)
  have t: "timers s = (p, i) # rest" using Cons pi by simp
  have dims: "canvas_width s = 600" "canvas_height s = 300"
    "world s = create_world wasm" "camera s = create_camera wasm 600 300"
    using s by (simp_all add: sound_def)
  have p: "p < passes s" and i: "i < 600" and nin: "p \<notin> fst ` set rest"
    and dist: "distinct (map fst rest)"
    and rest: "\<forall>(q, k)\<in>set rest. q < passes s \<and> k < 600"
    using s t by (auto simp: sound_def)
  have ok: "trace_ok wasm (passes s) (raster s) (trace s)"
    using s by (simp add: sound_def)
  have iw: "i < canvas_width s" using i dims by simp
  from t iw show ?thesis
  proof (cases rule: tick_cases[where wasm=wasm])
    case (returns f)
    have ret: "\<forall>k<300. color_at wasm (create_world wasm) (create_camera wasm 600 300) i k = Inr (f i k)"
      using returns(1) dims by simp
    have "trace_ok wasm (passes s) (paint_rows f i 0 300 (raster s))
           (trace s @ col_events f (create_world wasm) (create_camera wasm 600 300) p i 0 300)"
      by (rule trace_ok_paint[where f=f, OF ok p i _ ret]) simp
    then show ?thesis
      using returns(2) dims p i nin dist rest by (auto simp: sound_def)
  next
    case (throws f j e)
    have j: "j < 300" using throws(1) dims by simp
    have ret: "\<forall>k<j. color_at wasm (create_world wasm) (create_camera wasm 600 300) i k = Inr (f i k)"
      using throws(2) dims by simp
    have "trace_ok wasm (passes s) (paint_rows f i 0 j (raster s))
           (trace s @ col_events f (create_world wasm) (create_camera wasm 600 300) p i 0 j)"
      by (rule trace_ok_paint[where f=f, OF ok p i _ ret]) (use j in simp)
    then have "trace_ok wasm (passes s) (paint_rows f i 0 j (raster s))
           ((trace s @ col_events f (create_world wasm) (create_camera wasm 600 300) p i 0 j)
             @ [ColorAt p (create_world wasm) (create_camera wasm 600 300) i j])"
      by (rule trace_ok_call[OF _ p i j])
    then show ?thesis
      using throws(4) dims p i dist rest by (auto simp: sound_def)
  qed
qed

lemma sound_exec: "sound wasm s \<Longrightarrow> sound wasm (exec wasm s a)"
  by (cases a) (simp_all add: sound_click_freezed sound_click_render sound_tick exec.simps(1,2))

lemma run_snoc: "run wasm (as @ [a]) s = exec wasm (run wasm as s) a"
  by (simp add: run_def)

lemma run_Nil: "run wasm [] s = s"
  by (simp add: run_def)

lemma run_Cons: "run wasm (a # as) s = run wasm as (exec wasm s a)"
  by (simp add: run_def)

lemma run_append: "run wasm (as @ bs) s = run wasm bs (run wasm as s)"
  by (simp add: run_def)

lemma sound_run: "sound wasm s \<Longrightarrow> sound wasm (run wasm as s)"
  by (induction as rule: rev_induct) (simp_all add: run_Nil run_snoc sound_exec)

lemma sound_reachable: "sound wasm (run wasm as (init wasm html))"
  by (rule sound_run[OF sound_init])

subsection \<open>The events of a pass\<close>

lemma pass_of_col_events: "e \<in> set (col_events f w c p i j0 j1) \<Longrightarrow> pass_of e = Some p"
  by (auto simp: set_col_events)

lemma of_pass_col_events:
  "of_pass q (col_events f w c p i j0 j1) = (if q = p then col_events f w c p i j0 j1 else [])"
  by (auto simp: of_pass_def filter_empty_conv dest: pass_of_col_events intro: filter_True)

lemma of_pass_append: "of_pass q (xs @ ys) = of_pass q xs @ of_pass q ys"
  by (simp add: of_pass_def)

lemma pass_events_Suc:
  "pass_events f w c h p (Suc k) = pass_events f w c h p k @ col_events f w c p k 0 h"
  by (simp add: pass_events_def)

lemma pass_events_0 [simp]: "pass_events f w c h p 0 = []"
  by (simp add: pass_events_def)

lemma of_pass_unstarted:
  assumes "sound wasm s" and "passes s \<le> q"
  shows "of_pass q (trace s) = []"
proof -
  have "pass_of e \<noteq> Some q" if "e \<in> set (trace s)" for e
  proof -
    have "ev_ok wasm (passes s) (raster s) e"
      using assms(1) that by (simp add: sound_def trace_ok_def)
    then show ?thesis using assms(2) by (cases e) auto
  qed
  then show ?thesis by (auto simp: of_pass_def filter_empty_conv)
qed

lemma progress_init: "progress f wasm (init wasm html)"
  by (simp add: progress_def init_simps)

lemma click_freezed_frame:
  "world (click_freezed s) = world s"
  "camera (click_freezed s) = camera s"
  "canvas_width (click_freezed s) = canvas_width s"
  "canvas_height (click_freezed s) = canvas_height s"
  "raster (click_freezed s) = raster s"
  "console (click_freezed s) = console s"
  "timers (click_freezed s) = timers s"
  "passes (click_freezed s) = passes s"
  "trace (click_freezed s) = trace s"
  by (simp_all add: click_freezed_def Let_def)

lemma finished_cols_click_freezed: "finished_cols (click_freezed s) p = finished_cols s p"
  by (simp add: finished_cols_def click_freezed_frame split: option.splits)

lemma progress_click_freezed: "progress f wasm s \<Longrightarrow> progress f wasm (click_freezed s)"
  by (simp add: progress_def click_freezed_frame finished_cols_click_freezed)

lemma progress_click_render:
  assumes pr: "progress f wasm s" and s: "sound wasm s"
  shows "progress f wasm (click_render s)"
proof -
  let ?q = "passes s"
  have w: "canvas_width s = 600" using s by (simp add: sound_def)
  have t: "timers (click_render s) = timers s @ [(?q, 0)]"
    and n: "passes (click_render s) = Suc ?q"
    and tr: "trace (click_render s) = trace s"
    and cw: "canvas_width (click_render s) = canvas_width s"
    using w by (simp_all add: click_render_def render_loop_def)
  have fresh: "map_of (timers s) ?q = None"
    using s by (auto simp: sound_def map_of_eq_None_iff)
  have new: "finished_cols (click_render s) ?q = 0"
    using fresh by (simp add: finished_cols_def t map_add_def)
  have old: "finished_cols (click_render s) p = finished_cols s p" if "p < ?q" for p
    using that by (auto simp: finished_cols_def t cw map_add_def split: option.splits)
  show ?thesis
    unfolding progress_def n tr
  proof (intro allI impI)
    fix p assume "p < Suc ?q"
    then consider "p < ?q" | "p = ?q" by linarith
    then show "of_pass p (trace s) =
        pass_events f (create_world wasm) (create_camera wasm 600 300) 300 p (finished_cols (click_render s) p)"
    proof cases
      case 1
      then show ?thesis using pr old by (simp add: progress_def)
    next
      case 2
      then show ?thesis using new of_pass_unstarted[OF s, of ?q] by simp
    qed
  qed
qed

lemma progress_tick:
  assumes pr: "progress f wasm s" and s: "sound wasm s"
    and ret: "\<forall>i<600. \<forall>j<300. color_at wasm (create_world wasm) (create_camera wasm 600 300) i j = Inr (f i j)"
  shows "progress f wasm (exec wasm s Tick)"
proof (cases "timers s")
  case Nil
  then show ?thesis using pr by (simp add: tick_idle)
next
  case (Cons pi rest)
  obtain p i where pi: "pi = (p, i)" by (cases pi)
  have t: "timers s = (p, i) # rest" using Cons pi by simp
  have dims: "canvas_width s = 600" "canvas_height s = 300"
    "world s = create_world wasm" "camera s = create_camera wasm 600 300"
    using s by (simp_all add: sound_def)
  have p: "p < passes s" and i: "i < 600" and nin: "p \<notin> fst ` set rest"
    using s t by (auto simp: sound_def)
  have iw: "i < canvas_width s" using i dims by simp
  have r: "\<forall>k<canvas_height s. color_at wasm (world s) (camera s) i k = Inr (f i k)"
    using ret i dims by simp
  let ?s' = "exec wasm s Tick"
  let ?X = "if i + 1 < 600 then [(p, i + 1)] else []"
  have ex: "?s' = s\<lparr>timers := rest @ ?X,
             trace := trace s @ col_events f (create_world wasm) (create_camera wasm 600 300) p i 0 300,
             raster := paint_rows f i 0 300 (raster s)\<rparr>"
    using tick_returns[where f=f, OF t iw r] dims by simp
  have none: "map_of rest p = None"
    using nin by (simp add: map_of_eq_None_iff)
  have fp: "finished_cols ?s' p = Suc i"
    using none i dims by (auto simp: ex finished_cols_def map_add_def)
  have fq: "finished_cols ?s' q = finished_cols s q" if "q \<noteq> p" for q
    using that by (auto simp: ex finished_cols_def t map_add_def split: option.splits)
  have fp0: "finished_cols s p = i"
    by (simp add: finished_cols_def t)
  show ?thesis
    unfolding progress_def
  proof (intro allI impI)
    fix q assume "q < passes ?s'"
    then have q: "q < passes s" by (simp add: ex)
    show "of_pass q (trace ?s') =
        pass_events f (create_world wasm) (create_camera wasm 600 300) 300 q (finished_cols ?s' q)"
    proof (cases "q = p")
      case True
      have "of_pass p (trace s) = pass_events f (create_world wasm) (create_camera wasm 600 300) 300 p i"
        using pr p fp0 by (simp add: progress_def)
      then show ?thesis
        unfolding True fp by (simp add: ex of_pass_append of_pass_col_events pass_events_Suc)
    next
      case False
      then show ?thesis
        using pr q fq[OF False] by (simp add: ex progress_def of_pass_append of_pass_col_events)
    qed
  qed
qed

lemma progress_exec:
  assumes "progress f wasm s" and "sound wasm s"
    and "\<forall>i<600. \<forall>j<300. color_at wasm (create_world wasm) (create_camera wasm 600 300) i j = Inr (f i j)"
  shows "progress f wasm (exec wasm s a)"
  using assms
  by (cases a) (simp_all add: progress_click_freezed progress_click_render progress_tick exec.simps(1,2))

lemma progress_reachable:
  assumes "\<forall>i<600. \<forall>j<300. color_at wasm (create_world wasm) (create_camera wasm 600 300) i j = Inr (f i j)"
  shows "progress f wasm (run wasm as (init wasm html))"
proof (induction as rule: rev_induct)
  case Nil
  show ?case by (simp add: run_Nil progress_init)
next
  case (snoc a as)
  show ?case
    unfolding run_snoc
    by (rule progress_exec[OF snoc sound_reachable assms])
qed

subsection \<open>The trace only grows\<close>

lemma click_render_closed:
  "canvas_width s = 600 \<Longrightarrow>
   exec wasm s ClickRender =
     s\<lparr>console := console s @ [''rendering!''], passes := Suc (passes s),
       timers := timers s @ [(passes s, 0)]\<rparr>"
  by (simp add: exec.simps click_render_def render_loop_def)

lemma exec_trace_extends:
  assumes "sound wasm s"
  shows "\<exists>xs. trace (exec wasm s a) = trace s @ xs \<and> (\<forall>e\<in>set xs. pass_of e \<noteq> None)"
proof (cases a)
  case ClickFreezed
  then show ?thesis by (simp add: exec.simps click_freezed_frame)
next
  case ClickRender
  then show ?thesis using assms by (simp add: click_render_closed sound_def)
next
  case Tick
  show ?thesis
  proof (cases "timers s")
    case Nil
    then show ?thesis using Tick by (simp add: tick_idle)
  next
    case (Cons pi rest)
    obtain p i where t: "timers s = (p, i) # rest" using Cons by (cases pi) simp
    have iw: "i < canvas_width s" using assms t by (auto simp: sound_def)
    from t iw show ?thesis
    proof (cases rule: tick_cases[where wasm=wasm])
      case (returns f)
      have "trace (exec wasm s a) =
              trace s @ col_events f (world s) (camera s) p i 0 (canvas_height s)"
        by (simp add: Tick returns(2))
      moreover have "\<forall>e\<in>set (col_events f (world s) (camera s) p i 0 (canvas_height s)). pass_of e \<noteq> None"
        by (auto dest: pass_of_col_events)
      ultimately show ?thesis by blast
    next
      case (throws f j e)
      have "trace (exec wasm s a) =
              trace s @ (col_events f (world s) (camera s) p i 0 j @ [ColorAt p (world s) (camera s) i j])"
        by (simp add: Tick throws(4))
      moreover have "\<forall>e\<in>set (col_events f (world s) (camera s) p i 0 j @ [ColorAt p (world s) (camera s) i j]). pass_of e \<noteq> None"
        by (auto dest: pass_of_col_events)
      ultimately show ?thesis by blast
    qed
  qed
qed

lemma trace_reachable:
  "\<exists>xs. trace (run wasm as (init wasm html)) = [CreateWorld, CreateCamera 600 300] @ xs \<and>
        (\<forall>e\<in>set xs. pass_of e \<noteq> None)"
proof (induction as rule: rev_induct)
  case Nil
  show ?case by (simp add: run_Nil init_simps)
next
  case (snoc a as)
  then obtain xs where xs: "trace (run wasm as (init wasm html)) = [CreateWorld, CreateCamera 600 300] @ xs"
      "\<forall>e\<in>set xs. pass_of e \<noteq> None" by blast
  obtain ys where ys: "trace (exec wasm (run wasm as (init wasm html)) a) = trace (run wasm as (init wasm html)) @ ys"
      "\<forall>e\<in>set ys. pass_of e \<noteq> None"
    using exec_trace_extends[OF sound_reachable] by blast
  have "trace (run wasm (as @ [a]) (init wasm html)) = [CreateWorld, CreateCamera 600 300] @ (xs @ ys)"
    using xs(1) ys(1) by (simp add: run_snoc)
  moreover have "\<forall>e\<in>set (xs @ ys). pass_of e \<noteq> None"
    using xs(2) ys(2) by auto
  ultimately show ?case by blast
qed

subsection \<open>One pass alone\<close>

lemma paint_cols_0 [simp]: "paint_cols f 0 h ras = ras"
  by (auto simp: paint_cols_def fun_eq_iff)

lemma paint_cols_Suc: "paint_rows f k 0 h (paint_cols f k h ras) = paint_cols f (Suc k) h ras"
  by (auto simp: paint_cols_def paint_rows_def fun_eq_iff less_Suc_eq)

lemma replicate_snoc: "replicate (Suc k) x = replicate k x @ [x]"
  by (simp add: replicate_append_same)

lemma solo_pass:
  assumes s: "sound wasm s" and idle: "timers s = []"
    and ret: "\<forall>i<600. \<forall>j<300. color_at wasm (create_world wasm) (create_camera wasm 600 300) i j = Inr (f i j)"
    and k: "k \<le> 600"
  shows "run wasm (ClickRender # replicate k Tick) s =
     s\<lparr>console := console s @ [''rendering!''], passes := Suc (passes s),
       timers := (if k < 600 then [(passes s, k)] else []),
       trace := trace s @ pass_events f (create_world wasm) (create_camera wasm 600 300) 300 (passes s) k,
       raster := paint_cols f k 300 (raster s)\<rparr>"
  using k
proof (induction k)
  case 0
  have "canvas_width s = 600" using s by (simp add: sound_def)
  then show ?case
    using idle by (simp add: run_Cons run_Nil click_render_closed)
next
  case (Suc k)
  let ?t = "s\<lparr>console := console s @ [''rendering!''], passes := Suc (passes s),
       timers := [(passes s, k)],
       trace := trace s @ pass_events f (create_world wasm) (create_camera wasm 600 300) 300 (passes s) k,
       raster := paint_cols f k 300 (raster s)\<rparr>"
  have dims: "canvas_width s = 600" "canvas_height s = 300"
    "world s = create_world wasm" "camera s = create_camera wasm 600 300"
    using s by (simp_all add: sound_def)
  have IH: "run wasm (ClickRender # replicate k Tick) s = ?t"
    using Suc by simp
  have t: "timers ?t = (passes s, k) # []" by simp
  have kw: "k < canvas_width ?t" using Suc.prems dims by simp
  have r: "\<forall>j<canvas_height ?t. color_at wasm (world ?t) (camera ?t) k j = Inr (f k j)"
    using ret Suc.prems dims by simp
  have "run wasm (ClickRender # replicate (Suc k) Tick) s = exec wasm ?t Tick"
    unfolding replicate_snoc using IH by (simp add: run_Cons run_append run_Nil)
  also have "\<dots> = ?t\<lparr>timers := [] @ (if k + 1 < canvas_width ?t then [(passes s, k + 1)] else []),
             trace := trace ?t @ col_events f (world ?t) (camera ?t) (passes s) k 0 (canvas_height ?t),
             raster := paint_rows f k 0 (canvas_height ?t) (raster ?t)\<rparr>"
    by (rule tick_returns[where f=f, OF t kw r])
  also have "\<dots> = s\<lparr>console := console s @ [''rendering!''], passes := Suc (passes s),
       timers := (if Suc k < 600 then [(passes s, Suc k)] else []),
       trace := trace s @ pass_events f (create_world wasm) (create_camera wasm 600 300) 300 (passes s) (Suc k),
       raster := paint_cols f (Suc k) 300 (raster s)\<rparr>"
    using dims by (simp add: pass_events_Suc paint_cols_Suc)
  finally show ?case .
qed

lemma test_engine_returns:
  "\<forall>i<600. \<forall>j<300. color_at (test_engine never) (create_world (test_engine never))
       (create_camera (test_engine never) 600 300) i j = Inr (gradient (600, 300) i j)"
  by (simp add: test_engine_simps never_def)

lemma first_column:
  "run (test_engine never) [ClickRender, Tick] (init (test_engine never) html) =
     (init (test_engine never) html)
       \<lparr>console := [''rendering!''], passes := 1, timers := [(0, 1)],
        trace := [CreateWorld, CreateCamera 600 300] @ col_events (gradient (600, 300)) () (600, 300) 0 0 0 300,
        raster := paint_cols (gradient (600, 300)) 1 300 (\<lambda>_. transparent)\<rparr>"
  using solo_pass[where f="gradient (600, 300)" and k=1, OF sound_init _ test_engine_returns, of html]
  by (simp add: init_simps test_engine_simps pass_events_def)

lemma mem_col_events:
  "j0 \<le> k \<Longrightarrow> k < j1 \<Longrightarrow> ColorAt p w c i k \<in> set (col_events f w c p i j0 j1)"
  "j0 \<le> k \<Longrightarrow> k < j1 \<Longrightarrow> PutImageData p i k (bytes_of (f i k)) \<in> set (col_events f w c p i j0 j1)"
  by (auto simp: set_col_events)

subsection \<open>Counting events\<close>

lemma count_list_filter: "P e \<Longrightarrow> count_list (filter P xs) e = count_list xs e"
  by (induction xs) auto

lemma count_of_pass: "pass_of e = Some p \<Longrightarrow> count_list (of_pass p tr) e = count_list tr e"
  unfolding of_pass_def by (rule count_list_filter)

lemma count_col_events_call:
  "count_list (col_events f w c p i 0 h) (ColorAt p w c x y) = (if x = i \<and> y < h then 1 else 0)"
proof (induction h)
  case 0
  show ?case by simp
next
  case (Suc h)
  then show ?case
    by (auto simp: col_events_snoc pixel_events_def)
qed

lemma count_col_events_put:
  "count_list (col_events f w c p i 0 h) (PutImageData p x y d) =
     (if x = i \<and> y < h \<and> d = bytes_of (f x y) then 1 else 0)"
proof (induction h)
  case 0
  show ?case by simp
next
  case (Suc h)
  then show ?case
    by (auto simp: col_events_snoc pixel_events_def)
qed

lemma count_pass_events_call:
  "count_list (pass_events f w c h p k) (ColorAt p w c x y) = (if x < k \<and> y < h then 1 else 0)"
proof (induction k)
  case 0
  show ?case by simp
next
  case (Suc k)
  then show ?case
    by (auto simp: pass_events_Suc count_col_events_call)
qed

lemma count_pass_events_put:
  "count_list (pass_events f w c h p k) (PutImageData p x y d) =
     (if x < k \<and> y < h \<and> d = bytes_of (f x y) then 1 else 0)"
proof (induction k)
  case 0
  show ?case by simp
next
  case (Suc k)
  then show ?case
    by (auto simp: pass_events_Suc count_col_events_put)
qed

lemma finished_cols_done:
  "p \<notin> fst ` set (timers s) \<Longrightarrow> finished_cols s p = canvas_width s"
proof -
  assume "p \<notin> fst ` set (timers s)"
  then have "map_of (timers s) p = None" by (simp add: map_of_eq_None_iff)
  then show ?thesis by (simp add: finished_cols_def)
qed

text \<open>The raster once some pass has finished, in an engine that returns \<open>f i j\<close> everywhere.\<close>

lemma raster_of_finished:
  assumes s: "sound wasm s"
    and ret: "\<forall>i<600. \<forall>j<300. color_at wasm (create_world wasm) (create_camera wasm 600 300) i j = Inr (f i j)"
    and ev: "of_pass p (trace s) = pass_events f (create_world wasm) (create_camera wasm 600 300) 300 p 600"
  shows "raster s (x, y) = (if x < 600 \<and> y < 300 then pixel_of (f x y) else transparent)"
proof (cases "x < 600 \<and> y < 300")
  case True
  let ?e = "PutImageData p x y (bytes_of (f x y))"
  have "count_list (trace s) ?e = 1"
    using count_of_pass[of ?e p "trace s"] True
    by (simp add: ev count_pass_events_put)
  then have "?e \<in> set (trace s)"
    by (metis count_list_0_iff zero_neq_one)
  then have "ev_ok wasm (passes s) (raster s) ?e"
    using s unfolding sound_def trace_ok_def by blast
  then obtain col where "color_at wasm (create_world wasm) (create_camera wasm 600 300) x y = Inr col"
      "raster s (x, y) = pixel_of col" by auto
  then show ?thesis using ret True by auto
next
  case False
  have "PutImageData q x y d \<notin> set (trace s)" for q d
  proof
    assume "PutImageData q x y d \<in> set (trace s)"
    then have "ev_ok wasm (passes s) (raster s) (PutImageData q x y d)"
      using s unfolding sound_def trace_ok_def by blast
    then show False using False by simp
  qed
  then have "raster s (x, y) = transparent"
    using s unfolding sound_def trace_ok_def by blast
  then show ?thesis using False by auto
qed

lemma full_pass:
  "run (test_engine never) (ClickRender # replicate 600 Tick) (init (test_engine never) html) =
     (init (test_engine never) html)
       \<lparr>console := [''rendering!''], passes := 1, timers := [],
        trace := [CreateWorld, CreateCamera 600 300] @ pass_events (gradient (600, 300)) () (600, 300) 300 0 600,
        raster := paint_cols (gradient (600, 300)) 600 300 (\<lambda>_. transparent)\<rparr>"
  using solo_pass[where f="gradient (600, 300)" and k=600, OF sound_init _ test_engine_returns, of html]
  by (simp add: init_simps test_engine_simps)

lemma one_click:
  "run wasm [ClickRender] (init wasm html) =
     (init wasm html)\<lparr>console := [''rendering!''], passes := 1, timers := [(0, 0)]\<rparr>"
  by (simp add: run_Cons run_Nil click_render_closed init_simps)

subsection \<open>Callbacks still to run\<close>

lemma remaining_zero:
  assumes "sound wasm s"
  shows "remaining s = 0 \<longleftrightarrow> timers s = []"
proof
  assume z: "remaining s = 0"
  show "timers s = []"
  proof (rule ccontr)
    assume "timers s \<noteq> []"
    then obtain p i rest where t: "timers s = (p, i) # rest"
      by (cases "timers s") auto
    have "i < canvas_width s" using assms t by (auto simp: sound_def)
    then show False using z t by (simp add: remaining_def)
  qed
next
  assume "timers s = []"
  then show "remaining s = 0" by (simp add: remaining_def)
qed

lemma tick_frame:
  assumes "sound wasm s"
  shows "count (exec wasm s Tick) = count s"
    and "freezedText (exec wasm s Tick) = freezedText s"
    and "passes (exec wasm s Tick) = passes s"
    and "console (exec wasm s Tick) = console s"
    and "\<exists>ys. timers (exec wasm s Tick) = tl (timers s) @ ys"
proof -
  have "count (exec wasm s Tick) = count s \<and> freezedText (exec wasm s Tick) = freezedText s \<and>
        passes (exec wasm s Tick) = passes s \<and> console (exec wasm s Tick) = console s \<and>
        (\<exists>ys. timers (exec wasm s Tick) = tl (timers s) @ ys)"
  proof (cases "timers s")
    case Nil
    then show ?thesis by (simp add: tick_idle)
  next
    case (Cons pi rest)
    obtain p i where t: "timers s = (p, i) # rest" using Cons by (cases pi) simp
    have iw: "i < canvas_width s" using assms t by (auto simp: sound_def)
    from t iw show ?thesis
    proof (cases rule: tick_cases[where wasm=wasm])
      case (returns f)
      show ?thesis unfolding returns(2) using t by simp
    next
      case (throws f j e)
      show ?thesis unfolding throws(4) using t by simp
    qed
  qed
  then show "count (exec wasm s Tick) = count s"
    and "freezedText (exec wasm s Tick) = freezedText s"
    and "passes (exec wasm s Tick) = passes s"
    and "console (exec wasm s Tick) = console s"
    and "\<exists>ys. timers (exec wasm s Tick) = tl (timers s) @ ys"
    by blast+
qed

lemma remaining_tick:
  assumes s: "sound wasm s" and ne: "timers s \<noteq> []"
    and ret: "\<forall>i<600. \<forall>j<300. color_at wasm (create_world wasm) (create_camera wasm 600 300) i j = Inr (f i j)"
  shows "Suc (remaining (exec wasm s Tick)) = remaining s"
proof -
  obtain p i rest where t: "timers s = (p, i) # rest"
    using ne by (cases "timers s") auto
  have dims: "canvas_width s = 600" "canvas_height s = 300"
    "world s = create_world wasm" "camera s = create_camera wasm 600 300"
    using s by (simp_all add: sound_def)
  have i: "i < 600" using s t by (auto simp: sound_def)
  have iw: "i < canvas_width s" using i dims by simp
  have r: "\<forall>k<canvas_height s. color_at wasm (world s) (camera s) i k = Inr (f i k)"
    using ret i dims by simp
  show ?thesis
    using tick_returns[where f=f, OF t iw r] dims i
    by (auto simp: remaining_def t)
qed

lemma passes_ticks: "sound wasm s \<Longrightarrow> passes (run wasm (replicate k Tick) s) = passes s"
proof (induction k)
  case 0
  show ?case by (simp add: run_Nil)
next
  case (Suc k)
  have "sound wasm (run wasm (replicate k Tick) s)"
    using Suc.prems by (rule sound_run)
  then show ?case
    unfolding replicate_snoc run_snoc using Suc by (simp add: tick_frame)
qed

lemma remaining_ticks:
  assumes s: "sound wasm s"
    and ret: "\<forall>i<600. \<forall>j<300. color_at wasm (create_world wasm) (create_camera wasm 600 300) i j = Inr (f i j)"
  shows "k \<le> remaining s \<Longrightarrow> remaining (run wasm (replicate k Tick) s) = remaining s - k"
proof (induction k)
  case 0
  show ?case by (simp add: run_Nil)
next
  case (Suc k)
  let ?t = "run wasm (replicate k Tick) s"
  have st: "sound wasm ?t" using s by (rule sound_run)
  have rem: "remaining ?t = remaining s - k" using Suc by simp
  then have "remaining ?t \<noteq> 0" using Suc.prems by simp
  then have "timers ?t \<noteq> []" using remaining_zero[OF st] by simp
  then have "Suc (remaining (exec wasm ?t Tick)) = remaining ?t"
    using remaining_tick[where f=f, OF st _ ret] by simp
  then show ?case
    unfolding replicate_snoc run_snoc using rem by simp
qed

lemma drained:
  assumes s: "sound wasm s"
    and ret: "\<forall>i<600. \<forall>j<300. color_at wasm (create_world wasm) (create_camera wasm 600 300) i j = Inr (f i j)"
  shows "timers (drain wasm s) = []"
proof -
  have z: "remaining (drain wasm s) = 0"
    unfolding drain_def using remaining_ticks[where f=f, OF s ret, of "remaining s"] by simp
  have "sound wasm (drain wasm s)"
    unfolding drain_def using s by (rule sound_run)
  then show ?thesis using remaining_zero[of wasm "drain wasm s"] z by simp
qed

lemma not_drained_before:
  assumes s: "sound wasm s"
    and ret: "\<forall>i<600. \<forall>j<300. color_at wasm (create_world wasm) (create_camera wasm 600 300) i j = Inr (f i j)"
    and k: "k < remaining s"
  shows "timers (run wasm (replicate k Tick) s) \<noteq> []"
proof -
  have "remaining (run wasm (replicate k Tick) s) = remaining s - k"
    using remaining_ticks[where f=f, OF s ret, of k] k by simp
  then have nz: "remaining (run wasm (replicate k Tick) s) \<noteq> 0" using k by simp
  have "sound wasm (run wasm (replicate k Tick) s)"
    using s by (rule sound_run)
  then show ?thesis using remaining_zero[of wasm "run wasm (replicate k Tick) s"] nz by simp
qed

lemma exec_keeps_pending:
  assumes "sound wasm s"
  shows "\<exists>ys. timers (exec wasm s a) = (if a = Tick then tl (timers s) else timers s) @ ys"
proof (cases a)
  case ClickFreezed
  then show ?thesis by (simp add: exec.simps click_freezed_frame)
next
  case ClickRender
  then show ?thesis using assms by (simp add: click_render_closed sound_def)
next
  case Tick
  then show ?thesis using tick_frame(5)[OF assms] by simp
qed

lemma remaining_one_click: "remaining (run wasm [ClickRender] (init wasm html)) = 600"
  by (simp add: one_click remaining_def init_simps)

lemma drain_one_click:
  "drain wasm (run wasm [ClickRender] (init wasm html)) =
     run wasm (ClickRender # replicate 600 Tick) (init wasm html)"
  unfolding drain_def remaining_one_click by (simp add: run_Cons run_Nil)

subsection \<open>Passes in turn\<close>

lemma advance_0 [simp]: "advance 0 ts = ts"
  by (simp add: advance_def)

lemma advance_advance: "advance (Suc 0) (advance n ts) = advance (Suc n) ts"
  by (simp add: advance_def comp_def case_prod_unfold)

lemma length_advance [simp]: "length (advance n ts) = length ts"
  by (simp add: advance_def)

lemma rounds_0 [simp]: "rounds f w c ts 0 = []"
  by (simp add: rounds_def)

lemma rounds_Suc: "rounds f w c ts (Suc n) = rounds f w c ts n @ round_events f w c (advance n ts)"
  by (simp add: rounds_def)

lemma one_round:
  assumes ret: "\<forall>i<600. \<forall>j<300. color_at wasm (create_world wasm) (create_camera wasm 600 300) i j = Inr (f i j)"
  shows "sound wasm s \<Longrightarrow> timers s = xs @ ys \<Longrightarrow> \<forall>(p, i)\<in>set xs. i + 1 < 600 \<Longrightarrow>
         timers (run wasm (replicate (length xs) Tick) s) = ys @ advance 1 xs \<and>
         trace (run wasm (replicate (length xs) Tick) s) =
           trace s @ round_events f (create_world wasm) (create_camera wasm 600 300) xs"
proof (induction xs arbitrary: s ys)
  case Nil
  then show ?case by (simp add: run_Nil advance_def round_events_def)
next
  case (Cons x xs)
  obtain p i where x: "x = (p, i)" by (cases x)
  let ?w = "create_world wasm" and ?c = "create_camera wasm 600 300"
  let ?t = "exec wasm s Tick"
  have dims: "canvas_width s = 600" "canvas_height s = 300" "world s = ?w" "camera s = ?c"
    using Cons.prems(1) by (simp_all add: sound_def)
  have i: "i + 1 < 600" using Cons.prems(3) x by simp
  have t: "timers s = (p, i) # (xs @ ys)" using Cons.prems(2) x by simp
  have iw: "i < canvas_width s" using i dims by simp
  have r: "\<forall>k<canvas_height s. color_at wasm (world s) (camera s) i k = Inr (f i k)"
    using ret i dims by simp
  have ex: "timers ?t = xs @ (ys @ [(p, i + 1)])"
      "trace ?t = trace s @ col_events f ?w ?c p i 0 300"
    using tick_returns[where f=f, OF t iw r] dims i by simp_all
  have st: "sound wasm ?t" using Cons.prems(1) by (rule sound_exec)
  have rest: "\<forall>(p, i)\<in>set xs. i + 1 < 600" using Cons.prems(3) by simp
  have IH: "timers (run wasm (replicate (length xs) Tick) ?t) = (ys @ [(p, i + 1)]) @ advance 1 xs \<and>
         trace (run wasm (replicate (length xs) Tick) ?t) = trace ?t @ round_events f ?w ?c xs"
    by (rule Cons.IH[OF st ex(1) rest])
  have "run wasm (replicate (length (x # xs)) Tick) s = run wasm (replicate (length xs) Tick) ?t"
    by (simp add: run_Cons)
  then show ?case
    using IH ex(2) by (simp add: x advance_def round_events_def)
qed

lemma many_rounds:
  assumes ret: "\<forall>i<600. \<forall>j<300. color_at wasm (create_world wasm) (create_camera wasm 600 300) i j = Inr (f i j)"
    and s: "sound wasm s"
  shows "\<forall>(p, i)\<in>set (timers s). i + n < 600 \<Longrightarrow>
         timers (run wasm (replicate (n * length (timers s)) Tick) s) = advance n (timers s) \<and>
         trace (run wasm (replicate (n * length (timers s)) Tick) s) =
           trace s @ rounds f (create_world wasm) (create_camera wasm 600 300) (timers s) n"
proof (induction n)
  case 0
  show ?case by (simp add: run_Nil)
next
  case (Suc n)
  let ?ts = "timers s"
  let ?a = "run wasm (replicate (n * length ?ts) Tick) s"
  have less: "\<forall>(p, i)\<in>set ?ts. i + n < 600" using Suc.prems by auto
  have IH: "timers ?a = advance n ?ts"
      "trace ?a = trace s @ rounds f (create_world wasm) (create_camera wasm 600 300) ?ts n"
    using Suc.IH[OF less] by simp_all
  have sa: "sound wasm ?a" using s by (rule sound_run)
  have ta: "timers ?a = advance n ?ts @ []" using IH(1) by simp
  have next_ok: "\<forall>(p, i)\<in>set (advance n ?ts). i + 1 < 600"
    using Suc.prems by (auto simp: advance_def)
  have step: "timers (run wasm (replicate (length (advance n ?ts)) Tick) ?a) = [] @ advance 1 (advance n ?ts) \<and>
         trace (run wasm (replicate (length (advance n ?ts)) Tick) ?a) =
           trace ?a @ round_events f (create_world wasm) (create_camera wasm 600 300) (advance n ?ts)"
    by (rule one_round[OF ret sa ta next_ok])
  have "replicate (Suc n * length ?ts) Tick = replicate (n * length ?ts) Tick @ replicate (length ?ts) Tick"
    by (simp add: replicate_add[symmetric] add.commute)
  then have "run wasm (replicate (Suc n * length ?ts) Tick) s = run wasm (replicate (length ?ts) Tick) ?a"
    by (simp only: run_append)
  then show ?case
    using step IH(2) by (simp add: advance_advance rounds_Suc)
qed

subsection \<open>The probe counter\<close>

lemma digit_value: "d < 10 \<Longrightarrow> of_char (digit d) - 48 = d"
proof -
  assume "d < 10"
  then have "d \<in> set [0..<10]" by simp
  also have "[0..<10] = [0, 1, 2, 3, 4, 5, 6, 7, 8, 9::nat]"
    by (simp add: upt_rec)
  finally show ?thesis by (auto simp: digit_def)
qed

lemma decimal_value_number_to_string: "decimal_value (number_to_string n) = n"
proof (induction n rule: number_to_string.induct)
  case (1 n)
  show ?case
  proof (cases "n < 10")
    case True
    then show ?thesis
      by (subst number_to_string.simps) (simp add: decimal_value_def digit_value)
  next
    case False
    have "decimal_value (number_to_string n) =
            10 * decimal_value (number_to_string (n div 10)) + (of_char (digit (n mod 10)) - 48)"
      using False by (subst number_to_string.simps) (simp add: decimal_value_def)
    also have "\<dots> = 10 * (n div 10) + n mod 10"
      using 1[OF False] by (simp add: digit_value)
    finally show ?thesis by simp
  qed
qed

lemma count_list_replicate_same: "count_list (replicate n x) x = n"
  by (induction n) simp_all

lemma js_add1_funpow: "(js_add1 ^^ n) 0 = min n (2 ^ 53)"
proof (induction n)
  case 0
  show ?case by simp
next
  case (Suc n)
  then show ?case by (auto simp: js_add1_def min_def)
qed

lemma click_render_frame:
  "count (click_render s) = count s" "freezedText (click_render s) = freezedText s"
  by (simp_all add: click_render_def render_loop_def)

lemma exec_count:
  assumes "sound wasm s"
  shows "count (exec wasm s a) = (if a = ClickFreezed then js_add1 (count s) else count s)"
    and "freezedText (exec wasm s a) =
           (if a = ClickFreezed
            then ''No, you are not! ('' @ number_to_string (js_add1 (count s)) @ '')''
            else freezedText s)"
  using assms
  by (cases a; simp add: exec.simps(1,2) click_freezed_def click_render_frame tick_frame Let_def)+

lemma count_reachable:
  "count (run wasm as (init wasm html)) = (js_add1 ^^ count_list as ClickFreezed) 0"
proof (induction as rule: rev_induct)
  case Nil
  show ?case by (simp add: run_Nil init_simps)
next
  case (snoc a as)
  show ?case
    unfolding run_snoc using snoc
    by (simp add: exec_count[OF sound_reachable])
qed

lemma text_reachable:
  "freezedText (run wasm as (init wasm html)) =
     (if 0 < count_list as ClickFreezed
      then ''No, you are not! ('' @ number_to_string (count (run wasm as (init wasm html))) @ '')''
      else html)"
proof (induction as rule: rev_induct)
  case Nil
  show ?case by (simp add: run_Nil init_simps)
next
  case (snoc a as)
  show ?case
    unfolding run_snoc using snoc
    by (simp add: exec_count[OF sound_reachable])
qed

section \<open>The claims\<close>

subsection \<open>Every pixel, once per pass\<close>

text \<open>
  C1. Let the engine return a colour \<open>f i j\<close> for every pixel of the 600 by 300 raster.
  On any page the script reaches, take a pass \<open>p\<close> that was started and has no callback
  pending, that is, a finished pass. The canvas is 600 by 300, the size the camera was
  built with. The trace of the pass holds exactly one call of \<^verbatim>\<open>color_at\<close>
  for each pixel of the raster and none for any other coordinates, every call with the
  world and camera of the start; it holds exactly one \<^verbatim>\<open>putImageData\<close> for each pixel,
  at that pixel's position and with the bytes of that pixel's colour, and no other; and
  the raster holds, at each pixel, the bytes of the colour returned for it.
\<close>

theorem finished_pass_calls_each_pixel_once:
  assumes ret: "\<forall>i<600. \<forall>j<300. color_at wasm (create_world wasm) (create_camera wasm 600 300) i j = Inr (f i j)"
    and started: "p < passes (run wasm as (init wasm html))"
    and finished: "p \<notin> fst ` set (timers (run wasm as (init wasm html)))"
  shows "canvas_width (run wasm as (init wasm html)) = 600 \<and>
         canvas_height (run wasm as (init wasm html)) = 300 \<and>
         (\<forall>i j. count_list (trace (run wasm as (init wasm html)))
                   (ColorAt p (create_world wasm) (create_camera wasm 600 300) i j)
               = (if i < 600 \<and> j < 300 then 1 else 0)) \<and>
         (\<forall>w c i j. ColorAt p w c i j \<in> set (trace (run wasm as (init wasm html))) \<longrightarrow>
               w = create_world wasm \<and> c = create_camera wasm 600 300 \<and> i < 600 \<and> j < 300) \<and>
         (\<forall>x y d. count_list (trace (run wasm as (init wasm html))) (PutImageData p x y d)
               = (if x < 600 \<and> y < 300 \<and> d = bytes_of (f x y) then 1 else 0)) \<and>
         (\<forall>x y. raster (run wasm as (init wasm html)) (x, y)
               = (if x < 600 \<and> y < 300 then pixel_of (f x y) else transparent))"
proof -
  let ?s = "run wasm as (init wasm html)"
  let ?w = "create_world wasm" and ?c = "create_camera wasm 600 300"
  have s: "sound wasm ?s" by (rule sound_reachable)
  have "progress f wasm ?s" by (rule progress_reachable[OF ret])
  moreover have "finished_cols ?s p = 600"
    using finished_cols_done[OF finished] s by (simp add: sound_def)
  ultimately have ev: "of_pass p (trace ?s) = pass_events f ?w ?c 300 p 600"
    using started by (simp add: progress_def)
  have calls: "count_list (trace ?s) (ColorAt p ?w ?c i j) = (if i < 600 \<and> j < 300 then 1 else 0)" for i j
    using count_of_pass[of "ColorAt p ?w ?c i j" p "trace ?s"]
    by (simp add: ev count_pass_events_call)
  have puts: "count_list (trace ?s) (PutImageData p x y d)
                = (if x < 600 \<and> y < 300 \<and> d = bytes_of (f x y) then 1 else 0)" for x y d
    using count_of_pass[of "PutImageData p x y d" p "trace ?s"]
    by (simp add: ev count_pass_events_put)
  have args: "w = ?w \<and> c = ?c \<and> i < 600 \<and> j < 300"
    if "ColorAt p w c i j \<in> set (trace ?s)" for w c i j
  proof -
    have "ev_ok wasm (passes ?s) (raster ?s) (ColorAt p w c i j)"
      using s that unfolding sound_def trace_ok_def by blast
    then show ?thesis by simp
  qed
  have ras: "raster ?s (x, y) = (if x < 600 \<and> y < 300 then pixel_of (f x y) else transparent)" for x y
    by (rule raster_of_finished[OF s ret ev])
  have dims: "canvas_width ?s = 600" "canvas_height ?s = 300"
    using s by (simp_all add: sound_def)
  show ?thesis
    using dims calls puts args ras by blast
qed

theorem finished_pass_calls_each_pixel_once_witness:
  "0 < passes (run (test_engine never) (ClickRender # replicate 600 Tick) (init (test_engine never) [])) \<and>
   0 \<notin> fst ` set (timers (run (test_engine never) (ClickRender # replicate 600 Tick) (init (test_engine never) []))) \<and>
   count_list (trace (run (test_engine never) (ClickRender # replicate 600 Tick) (init (test_engine never) [])))
      (ColorAt 0 () (600, 300) 599 299) = 1 \<and>
   count_list (trace (run (test_engine never) (ClickRender # replicate 600 Tick) (init (test_engine never) [])))
      (ColorAt 0 () (600, 300) 600 0) = 0 \<and>
   count_list (trace (run (test_engine never) (ClickRender # replicate 600 Tick) (init (test_engine never) [])))
      (PutImageData 0 3 4 (bytes_of (gradient (600, 300) 3 4))) = 1 \<and>
   raster (run (test_engine never) (ClickRender # replicate 600 Tick) (init (test_engine never) [])) (3, 4)
      = pixel_of (gradient (600, 300) 3 4)"
proof -
  let ?E = "test_engine never"
  let ?s = "run ?E (ClickRender # replicate 600 Tick) (init ?E [])"
  have st: "0 < passes ?s" and fin: "0 \<notin> fst ` set (timers ?s)"
    by (simp_all add: full_pass)
  have wc: "create_world ?E = ()" "create_camera ?E 600 300 = (600, 300)"
    by (simp_all add: test_engine_simps)
  note th = finished_pass_calls_each_pixel_once[where f="gradient (600, 300)", OF test_engine_returns st fin]
  have c1: "count_list (trace ?s) (ColorAt 0 () (600, 300) 599 299) = 1"
    using th[unfolded wc] by simp
  have c2: "count_list (trace ?s) (ColorAt 0 () (600, 300) 600 0) = 0"
    using th[unfolded wc] by simp
  have c3: "count_list (trace ?s) (PutImageData 0 3 4 (bytes_of (gradient (600, 300) 3 4))) = 1"
    using th[unfolded wc] by simp
  have c4: "raster ?s (3, 4) = pixel_of (gradient (600, 300) 3 4)"
    using th[unfolded wc] by simp
  show ?thesis using st fin c1 c2 c3 c4 by blast
qed

subsection \<open>The stored bytes\<close>

text \<open>
  C2, as amended. When \<^verbatim>\<open>color_at\<close> returns a colour for a pixel of the raster, the pixel
  body stores, for red, green and blue, the product \<open>255 * clamp(component, 0, 1)\<close>, taken
  in double arithmetic, rounded to the nearest integer, an exact half going to the even
  neighbour; for a component that is not a number it stores 0.
\<close>

theorem render_pixel_stores_nearest_bytes:
  assumes "color_at wasm (world s) (camera s) i j = Inr col"
    and "i < canvas_width s" and "j < canvas_height s"
    and "is_double (red col)" and "is_double (green col)" and "is_double (blue col)"
  shows "\<exists>s'. render_pixel wasm p i j s = Inr s' \<and>
           uint (data0 (raster s' (i, j))) = nearest_byte (red col) \<and>
           uint (data1 (raster s' (i, j))) = nearest_byte (green col) \<and>
           uint (data2 (raster s' (i, j))) = nearest_byte (blue col)"
  using assms
  by (simp add: render_pixel_Inr_in pixel_of_def stored_component)

theorem render_pixel_stores_nearest_bytes_witness:
  "color_at (test_engine never) (world (init (test_engine never) []))
       (camera (init (test_engine never) [])) 150 30 = Inr (gradient (600, 300) 150 30) \<and>
   150 < canvas_width (init (test_engine never) []) \<and>
   30 < canvas_height (init (test_engine never) []) \<and>
   is_double (red (gradient (600, 300) 150 30)) \<and>
   is_double (green (gradient (600, 300) 150 30)) \<and>
   is_double (blue (gradient (600, 300) 150 30)) \<and>
   (\<exists>s'. render_pixel (test_engine never) 0 150 30 (init (test_engine never) []) = Inr s' \<and>
      uint (data0 (raster s' (150, 30))) = 37 \<and>
      uint (data1 (raster s' (150, 30))) = 15 \<and>
      uint (data2 (raster s' (150, 30))) = 255)"
proof -
  let ?E = "test_engine never"
  let ?s = "init ?E []"
  have c: "color_at ?E (world ?s) (camera ?s) 150 30 = Inr (gradient (600, 300) 150 30)"
    by (simp add: init_simps test_engine_simps never_def)
  have w: "150 < canvas_width ?s" and h: "30 < canvas_height ?s"
    by (simp_all add: init_simps)
  have d: "is_double (red (gradient (600, 300) 150 30))"
      "is_double (green (gradient (600, 300) 150 30))"
      "is_double (blue (gradient (600, 300) 150 30))"
    by (simp_all add: gradient_def is_double_def)
  have n: "nearest_byte (red (gradient (600, 300) 150 30)) = 37"
      "nearest_byte (green (gradient (600, 300) 150 30)) = 15"
      "nearest_byte (blue (gradient (600, 300) 150 30)) = 255"
    by (simp_all add: gradient_def nearest_byte_def js_number_def round_pack_def round_sig_def
        round_exp_def shift_def bits.simps nearest_ties_even_def round_def)
  show ?thesis
    using render_pixel_stores_nearest_bytes[OF c w h d, of 0] c w h d
    unfolding n by simp
qed

text \<open>
  C2, as stated, fails. For the red component \<open>0.43333333333333335\<close> the script stores
  110, while \<open>round(255 * clamp(component, 0, 1))\<close> is 111 both in exact arithmetic, where
  the product lies above 110.5, and on the double product 110.5 with a half going up.
  For the green component \<open>0.36666666666666664\<close> it stores 94 and the exact formula
  gives 93; for the blue component \<open>0.8333333333333334\<close> it stores 212 and the exact
  formula gives 213.
\<close>

theorem stored_byte_differs_from_round:
  "color_at tie_engine (world (init tie_engine [])) (camera (init tie_engine [])) 0 0 = Inr tie_color \<and>
   is_double (red tie_color) \<and> is_double (green tie_color) \<and> is_double (blue tie_color) \<and>
   uint (data0 (raster (page_of (render_pixel tie_engine 0 0 0 (init tie_engine []))) (0, 0))) = 110 \<and>
   spec_byte (val (red tie_color)) = 111 \<and>
   round (val (js_mul (js_number 255) (red tie_color))) = 111 \<and>
   uint (data1 (raster (page_of (render_pixel tie_engine 0 0 0 (init tie_engine []))) (0, 0))) = 94 \<and>
   spec_byte (val (green tie_color)) = 93 \<and>
   uint (data2 (raster (page_of (render_pixel tie_engine 0 0 0 (init tie_engine []))) (0, 0))) = 212 \<and>
   spec_byte (val (blue tie_color)) = 213"
proof -
  have c: "color_at tie_engine (world (init tie_engine [])) (camera (init tie_engine [])) 0 0 = Inr tie_color"
    by (simp add: tie_engine_def)
  have d: "is_double (red tie_color)" "is_double (green tie_color)" "is_double (blue tie_color)"
    by (simp_all add: tie_color_def is_double_def)
  have m: "js_mul (js_number 255) (red tie_color) = Finite False 7775746231631872 (- 46)"
      "js_mul (js_number 255) (green tie_color) = Finite False 6579477580611584 (- 46)"
      "js_mul (js_number 255) (blue tie_color) = Finite False 7476679068876800 (- 45)"
    by (simp_all add: tie_color_def js_number_def round_pack_def round_sig_def round_exp_def
        shift_def round_to_def bits.simps Let_def)
  have b: "ToUint8Clamp (Finite False 7775746231631872 (- 46)) = 110"
      "ToUint8Clamp (Finite False 6579477580611584 (- 46)) = 94"
      "ToUint8Clamp (Finite False 7476679068876800 (- 45)) = 212"
    by (simp_all add: clamp_round_def Let_def)
  have st: "uint (word_of_int (ToUint8Clamp (js_mul (js_number 255) (red tie_color))) :: byte) = 110"
      "uint (word_of_int (ToUint8Clamp (js_mul (js_number 255) (green tie_color))) :: byte) = 94"
      "uint (word_of_int (ToUint8Clamp (js_mul (js_number 255) (blue tie_color))) :: byte) = 212"
    unfolding m b by simp_all
  have r: "round (val (js_mul (js_number 255) (red tie_color))) = 111"
    unfolding m by (simp add: round_def)
  have sp: "spec_byte (val (red tie_color)) = 111" "spec_byte (val (green tie_color)) = 93"
      "spec_byte (val (blue tie_color)) = 213"
    by (simp_all add: tie_color_def spec_byte_def spec_clamp_def round_def)
  have px: "raster (page_of (render_pixel tie_engine 0 0 0 (init tie_engine []))) (0, 0) = pixel_of tie_color"
    by (simp add: render_pixel_Inr_in[OF c] init_simps)
  have "data0 (pixel_of tie_color) = word_of_int (ToUint8Clamp (js_mul (js_number 255) (red tie_color)))"
      "data1 (pixel_of tie_color) = word_of_int (ToUint8Clamp (js_mul (js_number 255) (green tie_color)))"
      "data2 (pixel_of tie_color) = word_of_int (ToUint8Clamp (js_mul (js_number 255) (blue tie_color)))"
    by (simp_all add: pixel_of_def)
  then show ?thesis
    using c d sp r st unfolding px by (simp only: simp_thms)
qed

subsection \<open>Column order and tasks\<close>

text \<open>
  C3. Let the engine return a colour \<open>f i j\<close> for every pixel. On any page the script
  reaches, the events of each pass so far are those of its finished columns, column after
  column from column 0 and, inside a column, row after row from row 0, each call followed
  by its write. One task of the host runs one callback: it appends the events of exactly
  the one column the callback captured, all 300 rows, and puts the callback of the next
  column at the back of the queue, behind every callback already pending, so that the
  next column runs in a later task.
\<close>

theorem columns_in_order_one_per_task:
  assumes ret: "\<forall>i<600. \<forall>j<300. color_at wasm (create_world wasm) (create_camera wasm 600 300) i j = Inr (f i j)"
  shows "(\<forall>p<passes (run wasm as (init wasm html)).
            of_pass p (trace (run wasm as (init wasm html))) =
              pass_events f (create_world wasm) (create_camera wasm 600 300) 300 p
                (finished_cols (run wasm as (init wasm html)) p)) \<and>
         (\<forall>p i rest. timers (run wasm as (init wasm html)) = (p, i) # rest \<longrightarrow>
            trace (exec wasm (run wasm as (init wasm html)) Tick) =
              trace (run wasm as (init wasm html)) @
                col_events f (create_world wasm) (create_camera wasm 600 300) p i 0 300 \<and>
            timers (exec wasm (run wasm as (init wasm html)) Tick) =
              rest @ (if i + 1 < 600 then [(p, i + 1)] else []))"
proof -
  let ?s = "run wasm as (init wasm html)"
  have s: "sound wasm ?s" by (rule sound_reachable)
  have dims: "canvas_width ?s = 600" "canvas_height ?s = 300"
    "world ?s = create_world wasm" "camera ?s = create_camera wasm 600 300"
    using s by (simp_all add: sound_def)
  have order: "\<forall>p<passes ?s. of_pass p (trace ?s) =
      pass_events f (create_world wasm) (create_camera wasm 600 300) 300 p (finished_cols ?s p)"
    using progress_reachable[OF ret, of "as" html] by (simp add: progress_def)
  have task: "trace (exec wasm ?s Tick) =
              trace ?s @ col_events f (create_world wasm) (create_camera wasm 600 300) p i 0 300 \<and>
            timers (exec wasm ?s Tick) = rest @ (if i + 1 < 600 then [(p, i + 1)] else [])"
    if t: "timers ?s = (p, i) # rest" for p i rest
  proof -
    have i: "i < 600" using s t by (auto simp: sound_def)
    have iw: "i < canvas_width ?s" using i dims by simp
    have r: "\<forall>k<canvas_height ?s. color_at wasm (world ?s) (camera ?s) i k = Inr (f i k)"
      using ret i dims by simp
    show ?thesis
      using tick_returns[where f=f, OF t iw r] dims by simp
  qed
  show ?thesis using order task by blast
qed

theorem columns_in_order_one_per_task_witness:
  "0 < passes (run (test_engine never) [ClickRender, Tick] (init (test_engine never) [])) \<and>
   of_pass 0 (trace (run (test_engine never) [ClickRender, Tick] (init (test_engine never) []))) =
     col_events (gradient (600, 300)) () (600, 300) 0 0 0 300 \<and>
   timers (run (test_engine never) [ClickRender, Tick] (init (test_engine never) [])) = (0, 1) # [] \<and>
   trace (exec (test_engine never) (run (test_engine never) [ClickRender, Tick] (init (test_engine never) [])) Tick) =
     trace (run (test_engine never) [ClickRender, Tick] (init (test_engine never) [])) @
       col_events (gradient (600, 300)) () (600, 300) 0 1 0 300 \<and>
   timers (exec (test_engine never) (run (test_engine never) [ClickRender, Tick] (init (test_engine never) [])) Tick) =
     [(0, 2)]"
proof -
  let ?E = "test_engine never"
  let ?s = "run ?E [ClickRender, Tick] (init ?E [])"
  have st: "0 < passes ?s" and t: "timers ?s = (0, 1) # []"
    by (simp_all add: first_column)
  have fc: "finished_cols ?s 0 = 1"
    by (simp add: finished_cols_def t)
  have wc: "create_world ?E = ()" "create_camera ?E 600 300 = (600, 300)"
    by (simp_all add: test_engine_simps)
  note th = columns_in_order_one_per_task[where f="gradient (600, 300)" and as="[ClickRender, Tick]"
      and html="[]", OF test_engine_returns, unfolded wc]
  have a: "of_pass 0 (trace ?s) = col_events (gradient (600, 300)) () (600, 300) 0 0 0 300"
    using th st fc by (simp add: pass_events_def)
  have b: "trace (exec ?E ?s Tick) = trace ?s @ col_events (gradient (600, 300)) () (600, 300) 0 1 0 300 \<and>
           timers (exec ?E ?s Tick) = [(0, 2)]"
    using th t by simp
  show ?thesis using st t a b by blast
qed

subsection \<open>World and camera\<close>

text \<open>
  C4. On every page the script reaches, whatever clicks and callbacks led to it, the world
  and the camera are the ones built at the start: the trace begins with the two
  constructions, holds no other engine call without a pass, and every call of
  \<^verbatim>\<open>color_at\<close> carries that world and that camera.
\<close>

theorem world_and_camera_made_once_and_kept:
  "world (run wasm as (init wasm html)) = create_world wasm \<and>
   camera (run wasm as (init wasm html)) = create_camera wasm 600 300 \<and>
   take 2 (trace (run wasm as (init wasm html))) = [CreateWorld, CreateCamera 600 300] \<and>
   filter (\<lambda>e. pass_of e = None) (trace (run wasm as (init wasm html))) = [CreateWorld, CreateCamera 600 300] \<and>
   (\<forall>p w c i j. ColorAt p w c i j \<in> set (trace (run wasm as (init wasm html))) \<longrightarrow>
        w = create_world wasm \<and> c = create_camera wasm 600 300)"
proof -
  let ?s = "run wasm as (init wasm html)"
  have s: "sound wasm ?s" by (rule sound_reachable)
  obtain xs where xs: "trace ?s = [CreateWorld, CreateCamera 600 300] @ xs"
      "\<forall>e\<in>set xs. pass_of e \<noteq> None"
    using trace_reachable by blast
  have calls: "w = create_world wasm \<and> c = create_camera wasm 600 300"
    if "ColorAt p w c i j \<in> set (trace ?s)" for p w c i j
  proof -
    have "ev_ok wasm (passes ?s) (raster ?s) (ColorAt p w c i j)"
      using s that unfolding sound_def trace_ok_def by blast
    then show ?thesis by simp
  qed
  have "filter (\<lambda>e. pass_of e = None) xs = []"
    using xs(2) by (simp add: filter_empty_conv)
  then have "filter (\<lambda>e. pass_of e = None) (trace ?s) = [CreateWorld, CreateCamera 600 300]"
    by (simp add: xs(1))
  moreover have "take 2 (trace ?s) = [CreateWorld, CreateCamera 600 300]"
    by (simp add: xs(1))
  moreover have "world ?s = create_world wasm" "camera ?s = create_camera wasm 600 300"
    using s by (simp_all add: sound_def)
  ultimately show ?thesis using calls by blast
qed

theorem world_and_camera_made_once_and_kept_witness:
  "world (run (test_engine never) [ClickRender, Tick] (init (test_engine never) [])) = () \<and>
   camera (run (test_engine never) [ClickRender, Tick] (init (test_engine never) [])) = (600, 300) \<and>
   take 2 (trace (run (test_engine never) [ClickRender, Tick] (init (test_engine never) [])))
     = [CreateWorld, CreateCamera 600 300] \<and>
   ColorAt 0 () (600, 300) 0 7
     \<in> set (trace (run (test_engine never) [ClickRender, Tick] (init (test_engine never) []))) \<and>
   () = create_world (test_engine never) \<and>
   (600, 300) = create_camera (test_engine never) 600 300"
proof -
  have m: "ColorAt 0 () (600, 300) 0 7
     \<in> set (trace (run (test_engine never) [ClickRender, Tick] (init (test_engine never) [])))"
    by (simp add: first_column mem_col_events)
  show ?thesis
    using world_and_camera_made_once_and_kept[of "test_engine never" "[ClickRender, Tick]" "[]"] m
    by (simp add: test_engine_simps)
qed

subsection \<open>The engine\<close>

text \<open>
  C5 is about the engine behind \<^verbatim>\<open>color_at\<close>, which the script only calls. Here the
  engine is a function handed to the script, so that equal arguments give equal results
  and that a call changes nothing are built into the model, not facts it can establish
  of the engine; nor does the model hold the bits of a floating-point result.
\<close>

subsection \<open>Completion\<close>

text \<open>
  C6. Let the engine return a colour \<open>f i j\<close> for every pixel, and take any page the
  script reaches. No click and no callback removes a pending callback other than the one
  that runs. Running as many callbacks as remain empties the queue, and not earlier; then
  every pass started has the events of all 600 columns and, if a pass was started, every
  pixel of the raster holds the bytes of its colour. For a click on the render button
  with no callback pending, 600 callbacks remain.
\<close>

theorem render_runs_to_completion:
  assumes ret: "\<forall>i<600. \<forall>j<300. color_at wasm (create_world wasm) (create_camera wasm 600 300) i j = Inr (f i j)"
  shows "timers (drain wasm (run wasm as (init wasm html))) = [] \<and>
         (\<forall>k<remaining (run wasm as (init wasm html)).
             timers (run wasm (replicate k Tick) (run wasm as (init wasm html))) \<noteq> []) \<and>
         (\<forall>p<passes (run wasm as (init wasm html)).
             of_pass p (trace (drain wasm (run wasm as (init wasm html)))) =
               pass_events f (create_world wasm) (create_camera wasm 600 300) 300 p 600) \<and>
         (0 < passes (run wasm as (init wasm html)) \<longrightarrow>
            (\<forall>x y. raster (drain wasm (run wasm as (init wasm html))) (x, y) =
               (if x < 600 \<and> y < 300 then pixel_of (f x y) else transparent))) \<and>
         (timers (run wasm as (init wasm html)) = [] \<longrightarrow>
            timers (exec wasm (run wasm as (init wasm html)) ClickRender)
              = [(passes (run wasm as (init wasm html)), 0)] \<and>
            remaining (exec wasm (run wasm as (init wasm html)) ClickRender) = 600) \<and>
         (\<forall>a. \<exists>ys. timers (exec wasm (run wasm as (init wasm html)) a) =
             (if a = Tick then tl (timers (run wasm as (init wasm html)))
              else timers (run wasm as (init wasm html))) @ ys)"
proof -
  let ?s = "run wasm as (init wasm html)"
  let ?d = "drain wasm ?s"
  have s: "sound wasm ?s" by (rule sound_reachable)
  have d_eq: "?d = run wasm (as @ replicate (remaining ?s) Tick) (init wasm html)"
    by (simp add: drain_def run_append)
  have sd: "sound wasm ?d" unfolding d_eq by (rule sound_reachable)
  have pd: "progress f wasm ?d" unfolding d_eq by (rule progress_reachable[OF ret])
  have td: "timers ?d = []" by (rule drained[where f=f, OF s ret])
  have nd: "passes ?d = passes ?s" unfolding drain_def by (rule passes_ticks[OF s])
  have wd: "canvas_width ?d = 600" using sd by (simp add: sound_def)
  have ev: "of_pass p (trace ?d) = pass_events f (create_world wasm) (create_camera wasm 600 300) 300 p 600"
    if "p < passes ?s" for p
  proof -
    have "finished_cols ?d p = 600"
      using finished_cols_done[of p ?d] td wd by simp
    then show ?thesis using pd that nd by (simp add: progress_def)
  qed
  have ras: "raster ?d (x, y) = (if x < 600 \<and> y < 300 then pixel_of (f x y) else transparent)"
    if "0 < passes ?s" for x y
    by (rule raster_of_finished[OF sd ret ev[OF that]])
  have before: "timers (run wasm (replicate k Tick) ?s) \<noteq> []" if "k < remaining ?s" for k
    by (rule not_drained_before[where f=f, OF s ret that])
  have click: "timers (exec wasm ?s ClickRender) = [(passes ?s, 0)] \<and>
               remaining (exec wasm ?s ClickRender) = 600"
    if "timers ?s = []"
    using that s by (simp add: click_render_closed sound_def remaining_def)
  have keep: "\<exists>ys. timers (exec wasm ?s a) = (if a = Tick then tl (timers ?s) else timers ?s) @ ys" for a
    by (rule exec_keeps_pending[OF s])
  show ?thesis
    using td before ev ras click keep by blast
qed

theorem render_runs_to_completion_witness:
  "0 < passes (run (test_engine never) [ClickRender] (init (test_engine never) [])) \<and>
   remaining (run (test_engine never) [ClickRender] (init (test_engine never) [])) = 600 \<and>
   timers (drain (test_engine never) (run (test_engine never) [ClickRender] (init (test_engine never) []))) = [] \<and>
   timers (run (test_engine never) (replicate 599 Tick)
             (run (test_engine never) [ClickRender] (init (test_engine never) []))) \<noteq> [] \<and>
   of_pass 0 (trace (drain (test_engine never) (run (test_engine never) [ClickRender] (init (test_engine never) [])))) =
     pass_events (gradient (600, 300)) () (600, 300) 300 0 600 \<and>
   raster (drain (test_engine never) (run (test_engine never) [ClickRender] (init (test_engine never) []))) (599, 299) =
     pixel_of (gradient (600, 300) 599 299) \<and>
   timers (run (test_engine never) [] (init (test_engine never) [])) = [] \<and>
   timers (exec (test_engine never) (run (test_engine never) [] (init (test_engine never) [])) ClickRender) = [(0, 0)]"
proof -
  let ?E = "test_engine never"
  let ?s = "run ?E [ClickRender] (init ?E [])"
  have st: "0 < passes ?s" by (simp add: one_click)
  have rem: "remaining ?s = 600" by (rule remaining_one_click)
  have wc: "create_world ?E = ()" "create_camera ?E 600 300 = (600, 300)"
    by (simp_all add: test_engine_simps)
  note th = render_runs_to_completion[where f="gradient (600, 300)" and as="[ClickRender]"
      and html="[]", OF test_engine_returns, unfolded wc rem]
  note th0 = render_runs_to_completion[where f="gradient (600, 300)" and as="[]"
      and html="[]", OF test_engine_returns, unfolded wc]
  have idle: "timers (run ?E [] (init ?E [])) = []" by (simp add: run_Nil init_simps)
  have a: "timers (drain ?E ?s) = []" using th by blast
  have b: "timers (run ?E (replicate 599 Tick) ?s) \<noteq> []" using th by simp
  have c: "of_pass 0 (trace (drain ?E ?s)) = pass_events (gradient (600, 300)) () (600, 300) 300 0 600"
    using th st by blast
  have d: "raster (drain ?E ?s) (599, 299) = pixel_of (gradient (600, 300) 599 299)"
    using th st by simp
  have e: "timers (exec ?E (run ?E [] (init ?E [])) ClickRender) = [(0, 0)]"
    using th0 idle by (simp add: run_Nil init_simps)
  show ?thesis using st rem a b c d e idle by blast
qed

subsection \<open>A failing pixel\<close>

text \<open>
  C7. Let the callback of column \<open>i\<close> run, let \<^verbatim>\<open>color_at\<close> return for the rows above
  \<open>j\<close> and throw at row \<open>j\<close>. Then pixel \<open>(i, j)\<close> keeps the value it had; the raster
  changes only in the rows above \<open>j\<close> of column \<open>i\<close>, each of which holds the complete
  pixel of its returned colour; the trace ends with the failed call, with no
  \<^verbatim>\<open>putImageData\<close> after it; and the pass schedules nothing further.
\<close>

theorem failed_pixel_writes_nothing:
  assumes "timers s = (p, i) # rest" and "i < canvas_width s" and "j < canvas_height s"
    and "\<forall>k<j. color_at wasm (world s) (camera s) i k = Inr (f i k)"
    and "color_at wasm (world s) (camera s) i j = Inl e"
  shows "raster (exec wasm s Tick) (i, j) = raster s (i, j) \<and>
         raster (exec wasm s Tick) = paint_rows f i 0 j (raster s) \<and>
         trace (exec wasm s Tick) =
           trace s @ col_events f (world s) (camera s) p i 0 j @ [ColorAt p (world s) (camera s) i j] \<and>
         timers (exec wasm s Tick) = rest"
proof -
  let ?t = "s\<lparr>timers := rest\<rparr>"
  have "column wasm p i 0 ?t =
         Inl (e, ?t\<lparr>trace := trace ?t @ col_events f (world ?t) (camera ?t) p i 0 j @ [ColorAt p (world ?t) (camera ?t) i j],
               raster := paint_rows f i 0 j (raster ?t)\<rparr>)"
    using assms by (intro column_throws) auto
  then show ?thesis
    using assms(1) by (simp add: exec.simps timer_task_def paint_rows_def)
qed

theorem failed_pixel_writes_nothing_witness:
  "timers (exec (test_engine (only_at 0 2)) (init (test_engine (only_at 0 2)) []) ClickRender) = (0, 0) # [] \<and>
   raster (exec (test_engine (only_at 0 2)) (exec (test_engine (only_at 0 2)) (init (test_engine (only_at 0 2)) []) ClickRender) Tick) (0, 2) = transparent \<and>
   raster (exec (test_engine (only_at 0 2)) (exec (test_engine (only_at 0 2)) (init (test_engine (only_at 0 2)) []) ClickRender) Tick) (0, 1) = pixel_of (gradient (600, 300) 0 1) \<and>
   trace (exec (test_engine (only_at 0 2)) (exec (test_engine (only_at 0 2)) (init (test_engine (only_at 0 2)) []) ClickRender) Tick) =
     [CreateWorld, CreateCamera 600 300,
      ColorAt 0 () (600, 300) 0 0, PutImageData 0 0 0 (bytes_of (gradient (600, 300) 0 0)),
      ColorAt 0 () (600, 300) 0 1, PutImageData 0 0 1 (bytes_of (gradient (600, 300) 0 1)),
      ColorAt 0 () (600, 300) 0 2] \<and>
   timers (exec (test_engine (only_at 0 2)) (exec (test_engine (only_at 0 2)) (init (test_engine (only_at 0 2)) []) ClickRender) Tick) = []"
proof -
  let ?E = "test_engine (only_at 0 2)"
  let ?s = "exec ?E (init ?E []) ClickRender"
  have fr: "world ?s = ()" "camera ?s = (600, 300)" "canvas_width ?s = 600" "canvas_height ?s = 300"
    "raster ?s = (\<lambda>_. transparent)" "trace ?s = [CreateWorld, CreateCamera 600 300]"
    by (simp_all add: exec.simps click_render_def render_loop_def init_simps test_engine_simps)
  have t: "timers ?s = (0, 0) # []"
    by (simp add: exec.simps click_render_def render_loop_def init_simps)
  have w: "0 < canvas_width ?s" and h: "2 < canvas_height ?s"
    using fr by simp_all
  have ok: "\<forall>k<2. color_at ?E (world ?s) (camera ?s) 0 k = Inr (gradient (600, 300) 0 k)"
    unfolding fr by (simp add: test_engine_simps only_at_def)
  have bad: "color_at ?E (world ?s) (camera ?s) 0 2 = Inl EngineError"
    unfolding fr by (simp add: test_engine_simps only_at_def)
  have two: "[0..<2] = [0, 1]" by (simp add: upt_rec)
  show ?thesis
    using failed_pixel_writes_nothing[where f = "gradient (600, 300)", OF t w h ok bad] t
    unfolding fr
    by (simp add: paint_rows_def col_events_def pixel_events_def two)
qed

subsection \<open>Alpha\<close>

text \<open>
  C8. On every page the script reaches, every \<^verbatim>\<open>putImageData\<close> in the trace carries
  four bytes with alpha 255, and the raster's pixel at that position has alpha 255.
\<close>

theorem written_pixels_opaque:
  "\<forall>p x y d. PutImageData p x y d \<in> set (trace (run wasm as (init wasm html))) \<longrightarrow>
      length d = 4 \<and> d ! 3 = 255 \<and> data3 (raster (run wasm as (init wasm html)) (x, y)) = 255"
proof (intro allI impI)
  fix p x y d
  let ?s = "run wasm as (init wasm html)"
  assume "PutImageData p x y d \<in> set (trace ?s)"
  then have "ev_ok wasm (passes ?s) (raster ?s) (PutImageData p x y d)"
    using sound_reachable[of wasm "as" html] unfolding sound_def trace_ok_def by blast
  then obtain col where "d = bytes_of col" "raster ?s (x, y) = pixel_of col"
    by auto
  then show "length d = 4 \<and> d ! 3 = 255 \<and> data3 (raster ?s (x, y)) = 255"
    by (simp add: bytes_of_def pixel_of_def ToUint8Clamp_255)
qed

theorem written_pixels_opaque_witness:
  "PutImageData 0 0 7 (bytes_of (gradient (600, 300) 0 7))
     \<in> set (trace (run (test_engine never) [ClickRender, Tick] (init (test_engine never) []))) \<and>
   length (bytes_of (gradient (600, 300) 0 7)) = 4 \<and>
   bytes_of (gradient (600, 300) 0 7) ! 3 = 255 \<and>
   data3 (raster (run (test_engine never) [ClickRender, Tick] (init (test_engine never) [])) (0, 7)) = 255"
proof -
  have m: "PutImageData 0 0 7 (bytes_of (gradient (600, 300) 0 7))
     \<in> set (trace (run (test_engine never) [ClickRender, Tick] (init (test_engine never) [])))"
    by (simp add: first_column mem_col_events)
  show ?thesis
    using written_pixels_opaque[of "test_engine never" "[ClickRender, Tick]" "[]"] m
    by blast
qed

subsection \<open>Clicks during a pass\<close>

text \<open>
  C9. On every page the script reaches, whatever callbacks are pending, a click on the
  render button puts the callback of column 0 of a new pass at the back of the queue and
  counts one more pass, and leaves the canvas, the world, the camera, the raster and the
  trace as they are: the handler tests nothing. If the engine returns a colour \<open>f i j\<close>
  for every pixel, the passes then take turns: in each round of tasks every pending
  callback, the new one last, paints one column and queues its next column, so that
  after \<open>n\<close> rounds every pass has moved on by \<open>n\<close> columns and the trace holds the
  columns of the passes interleaved, all painted with the same world and camera.
\<close>

theorem render_clicks_interleave:
  "timers (exec wasm (run wasm as (init wasm html)) ClickRender) =
     timers (run wasm as (init wasm html)) @ [(passes (run wasm as (init wasm html)), 0)] \<and>
   passes (exec wasm (run wasm as (init wasm html)) ClickRender) =
     Suc (passes (run wasm as (init wasm html))) \<and>
   canvas_width (exec wasm (run wasm as (init wasm html)) ClickRender) = 600 \<and>
   canvas_height (exec wasm (run wasm as (init wasm html)) ClickRender) = 300 \<and>
   world (exec wasm (run wasm as (init wasm html)) ClickRender) = create_world wasm \<and>
   camera (exec wasm (run wasm as (init wasm html)) ClickRender) = create_camera wasm 600 300 \<and>
   raster (exec wasm (run wasm as (init wasm html)) ClickRender) = raster (run wasm as (init wasm html)) \<and>
   trace (exec wasm (run wasm as (init wasm html)) ClickRender) = trace (run wasm as (init wasm html)) \<and>
   ((\<forall>i<600. \<forall>j<300. color_at wasm (create_world wasm) (create_camera wasm 600 300) i j = Inr (f i j)) \<and>
    (\<forall>(p, i)\<in>set (timers (run wasm as (init wasm html))). i + n < 600) \<and> n < 600 \<longrightarrow>
      timers (run wasm (ClickRender # replicate (n * Suc (length (timers (run wasm as (init wasm html))))) Tick)
                (run wasm as (init wasm html))) =
        advance n (timers (run wasm as (init wasm html)) @ [(passes (run wasm as (init wasm html)), 0)]) \<and>
      trace (run wasm (ClickRender # replicate (n * Suc (length (timers (run wasm as (init wasm html))))) Tick)
                (run wasm as (init wasm html))) =
        trace (run wasm as (init wasm html)) @
          rounds f (create_world wasm) (create_camera wasm 600 300)
            (timers (run wasm as (init wasm html)) @ [(passes (run wasm as (init wasm html)), 0)]) n)"
proof -
  let ?s = "run wasm as (init wasm html)"
  let ?t = "exec wasm ?s ClickRender"
  have s: "sound wasm ?s" by (rule sound_reachable)
  have dims: "canvas_width ?s = 600" "canvas_height ?s = 300"
    "world ?s = create_world wasm" "camera ?s = create_camera wasm 600 300"
    using s by (simp_all add: sound_def)
  have t: "timers ?t = timers ?s @ [(passes ?s, 0)]" "passes ?t = Suc (passes ?s)"
      "trace ?t = trace ?s" "raster ?t = raster ?s"
      "canvas_width ?t = 600" "canvas_height ?t = 300"
      "world ?t = create_world wasm" "camera ?t = create_camera wasm 600 300"
    using dims by (simp_all add: click_render_closed[OF dims(1)])
  have st: "sound wasm ?t" using s by (rule sound_exec)
  have turns: "timers (run wasm (ClickRender # replicate (n * Suc (length (timers ?s))) Tick) ?s) =
        advance n (timers ?s @ [(passes ?s, 0)]) \<and>
      trace (run wasm (ClickRender # replicate (n * Suc (length (timers ?s))) Tick) ?s) =
        trace ?s @ rounds f (create_world wasm) (create_camera wasm 600 300)
            (timers ?s @ [(passes ?s, 0)]) n"
    if ret: "\<forall>i<600. \<forall>j<300. color_at wasm (create_world wasm) (create_camera wasm 600 300) i j = Inr (f i j)"
      and room: "\<forall>(p, i)\<in>set (timers ?s). i + n < 600" and n: "n < 600"
  proof -
    have all: "\<forall>(p, i)\<in>set (timers ?t). i + n < 600"
      using room n by (auto simp: t(1))
    show ?thesis
      using many_rounds[where f=f and n=n, OF ret st all]
      by (simp add: run_Cons t(1) t(3))
  qed
  show ?thesis
    using t turns by blast
qed

theorem render_clicks_interleave_witness:
  "timers (run (test_engine never) [ClickRender, Tick] (init (test_engine never) [])) = [(0, 1)] \<and>
   timers (exec (test_engine never) (run (test_engine never) [ClickRender, Tick] (init (test_engine never) [])) ClickRender) =
     [(0, 1), (1, 0)] \<and>
   passes (exec (test_engine never) (run (test_engine never) [ClickRender, Tick] (init (test_engine never) [])) ClickRender) = 2 \<and>
   timers (run (test_engine never) (ClickRender # replicate 4 Tick)
             (run (test_engine never) [ClickRender, Tick] (init (test_engine never) []))) = [(0, 3), (1, 2)] \<and>
   trace (run (test_engine never) (ClickRender # replicate 4 Tick)
             (run (test_engine never) [ClickRender, Tick] (init (test_engine never) []))) =
     trace (run (test_engine never) [ClickRender, Tick] (init (test_engine never) [])) @
       col_events (gradient (600, 300)) () (600, 300) 0 1 0 300 @
       col_events (gradient (600, 300)) () (600, 300) 1 0 0 300 @
       col_events (gradient (600, 300)) () (600, 300) 0 2 0 300 @
       col_events (gradient (600, 300)) () (600, 300) 1 1 0 300"
proof -
  let ?E = "test_engine never"
  let ?s = "run ?E [ClickRender, Tick] (init ?E [])"
  have t: "timers ?s = [(0, 1)]" and p: "passes ?s = 1"
    by (simp_all add: first_column)
  have wc: "create_world ?E = ()" "create_camera ?E 600 300 = (600, 300)"
    by (simp_all add: test_engine_simps)
  have room: "\<forall>(p, i)\<in>set (timers ?s). i + 2 < 600" by (simp add: t)
  have four: "2 * Suc (length (timers ?s)) = 4" by (simp add: t)
  have two: "[0..<2] = [0, 1]" by (simp add: upt_rec)
  have ev: "rounds (gradient (600, 300)) () (600::nat, 300::nat) (timers ?s @ [(passes ?s, 0)]) 2 =
       col_events (gradient (600, 300)) () (600, 300) 0 1 0 300 @
       col_events (gradient (600, 300)) () (600, 300) 1 0 0 300 @
       col_events (gradient (600, 300)) () (600, 300) 0 2 0 300 @
       col_events (gradient (600, 300)) () (600, 300) 1 1 0 300"
    unfolding rounds_def two by (simp add: t p advance_def round_events_def numeral_2_eq_2)
  have adv: "advance 2 (timers ?s @ [(passes ?s, 0)]) = [(0, 3), (1, 2)]"
    by (simp add: t p advance_def)
  note th = render_clicks_interleave[where wasm="?E" and as="[ClickRender, Tick]" and html="[]"
      and f="gradient (600, 300)" and n=2, unfolded wc four ev adv]
  have ret: "\<forall>i<600. \<forall>j<300. color_at ?E () (600, 300) i j = Inr (gradient (600, 300) i j)"
    using test_engine_returns by (simp add: wc)
  have a: "timers (exec ?E ?s ClickRender) = [(0, 1), (1, 0)]"
      "passes (exec ?E ?s ClickRender) = 2"
    using th by (simp_all add: t p)
  have b: "timers (run ?E (ClickRender # replicate 4 Tick) ?s) = [(0, 3), (1, 2)] \<and>
      trace (run ?E (ClickRender # replicate 4 Tick) ?s) =
        trace ?s @
       col_events (gradient (600, 300)) () (600, 300) 0 1 0 300 @
       col_events (gradient (600, 300)) () (600, 300) 1 0 0 300 @
       col_events (gradient (600, 300)) () (600, 300) 0 2 0 300 @
       col_events (gradient (600, 300)) () (600, 300) 1 1 0 300"
    by (rule th[THEN conjunct2, THEN conjunct2, THEN conjunct2, THEN conjunct2, THEN conjunct2,
          THEN conjunct2, THEN conjunct2, THEN conjunct2, THEN mp])
       (intro conjI ret room, simp)
  show ?thesis using t a b by (intro conjI) simp_all
qed

subsection \<open>The probe button\<close>

text \<open>
  C10, as amended. On any page the script reaches, let \<open>n\<close> be the number of clicks on
  the probe button so far, in any interleaving with render clicks and callbacks. While
  \<open>n\<close> is at most \<open>2^53\<close>, the counter is \<open>n\<close> and, after the first click, the text is
  \<open>No, you are not! (n)\<close> with \<open>n\<close> in decimal. A click on the probe button leaves the
  raster, the canvas size, the world, the camera, the pending callbacks, the number of
  passes and the trace as they are.
\<close>

theorem probe_counts_clicks:
  assumes "count_list as ClickFreezed \<le> 2 ^ 53"
  shows "count (run wasm as (init wasm html)) = count_list as ClickFreezed \<and>
         (0 < count_list as ClickFreezed \<longrightarrow>
            freezedText (run wasm as (init wasm html)) =
              ''No, you are not! ('' @ number_to_string (count_list as ClickFreezed) @ '')'') \<and>
         decimal_value (number_to_string (count_list as ClickFreezed)) = count_list as ClickFreezed \<and>
         (\<forall>s. raster (exec wasm s ClickFreezed) = raster s \<and>
              canvas_width (exec wasm s ClickFreezed) = canvas_width s \<and>
              canvas_height (exec wasm s ClickFreezed) = canvas_height s \<and>
              world (exec wasm s ClickFreezed) = world s \<and>
              camera (exec wasm s ClickFreezed) = camera s \<and>
              timers (exec wasm s ClickFreezed) = timers s \<and>
              passes (exec wasm s ClickFreezed) = passes s \<and>
              trace (exec wasm s ClickFreezed) = trace s)"
proof -
  have c: "count (run wasm as (init wasm html)) = count_list as ClickFreezed"
    using assms by (simp add: count_reachable js_add1_funpow)
  show ?thesis
    using c text_reachable[of wasm "as" html]
    by (simp add: exec.simps(1) click_freezed_frame decimal_value_number_to_string)
qed

theorem probe_counts_clicks_witness:
  "count_list [ClickFreezed, ClickRender, ClickFreezed, Tick, ClickFreezed] ClickFreezed \<le> 2 ^ 53 \<and>
   count (run (test_engine never) [ClickFreezed, ClickRender, ClickFreezed, Tick, ClickFreezed]
            (init (test_engine never) [])) = 3 \<and>
   freezedText (run (test_engine never) [ClickFreezed, ClickRender, ClickFreezed, Tick, ClickFreezed]
            (init (test_engine never) [])) = ''No, you are not! (3)''"
proof -
  have n: "count_list [ClickFreezed, ClickRender, ClickFreezed, Tick, ClickFreezed] ClickFreezed = 3"
    by simp
  have le: "count_list [ClickFreezed, ClickRender, ClickFreezed, Tick, ClickFreezed] ClickFreezed \<le> 2 ^ 53"
    unfolding n by simp
  have str: "number_to_string 3 = ''3''"
    by (simp add: number_to_string.simps digit_def)
  show ?thesis
    using probe_counts_clicks[OF le, of "test_engine never" "[]"] le
    unfolding n by (simp add: str)
qed

text \<open>
  C10, as stated, fails once the counter reaches \<open>2^53\<close>, where adding one to a double
  gives \<open>2^53\<close> again: after click number 9007199254740993 the counter and the text
  still show 9007199254740992.
\<close>

theorem probe_counter_stops_at_2_53:
  "count (run tie_engine (replicate 9007199254740993 ClickFreezed) (init tie_engine [])) = 9007199254740992 \<and>
   freezedText (run tie_engine (replicate 9007199254740993 ClickFreezed) (init tie_engine [])) =
     ''No, you are not! (9007199254740992)''"
proof -
  have n: "count_list (replicate 9007199254740993 ClickFreezed) ClickFreezed = 9007199254740993"
    by (rule count_list_replicate_same)
  have c: "count (run tie_engine (replicate 9007199254740993 ClickFreezed) (init tie_engine [])) = 9007199254740992"
    unfolding count_reachable n js_add1_funpow by simp
  have str: "number_to_string 9007199254740992 = ''9007199254740992''"
    by (simp add: number_to_string.simps digit_def)
  show ?thesis
    using c text_reachable[of tie_engine "replicate 9007199254740993 ClickFreezed" "[]"]
    unfolding n by (simp add: str)
qed

end
